theory Spec2Isabelle
  imports Complex_Main "HOL-Library.Word" "HOL-Library.Log_Nat" "HOL-Library.AList"
begin

unbundle bit_operations_syntax

section \<open>Python values\<close>

text \<open>
  A Python \<open>str\<close> is a sequence of Unicode code points; \<open>ord\<close> of a character is its
  code point. An Isabelle \<open>char\<close> is a byte, so a \<open>str\<close> is modelled by the list of its
  code points and \<open>ord\<close> is the identity. Literals of the source are written with \<open>str\<close>.
\<close>

type_synonym pystr = "nat list"

definition str :: "string \<Rightarrow> pystr" where
  "str s = map of_char s"

text \<open>The exceptions that the operations used by \<open>add_colors_to_csv.py\<close> can raise.\<close>

datatype py_error =
    ZeroDivisionError
  | OverflowError
  | FloatToIntError  \<comment> \<open>\<open>int()\<close> of an infinity (OverflowError) or of a NaN (ValueError)\<close>
  | KeyError
  | TypeError
  | ValueError
  | FileNotFoundError

definition bind_result :: "py_error + 'a \<Rightarrow> ('a \<Rightarrow> py_error + 'b) \<Rightarrow> py_error + 'b" where
  "bind_result r f = (case r of Inl e \<Rightarrow> Inl e | Inr v \<Rightarrow> f v)"

section \<open>The hash of \<open>generate_color_for_product\<close> (lines 14 to 22)\<close>

text \<open>
  Python integers are unbounded: \<open>hash_value << 5\<close> is \<open>push_bit 5\<close> on \<open>int\<close>,
  \<open>>>\<close> is \<open>drop_bit\<close> (it rounds towards minus infinity), and \<open>%\<close> with a positive
  modulus is \<open>mod\<close>.
\<close>

fun hash_loop :: "int \<Rightarrow> pystr \<Rightarrow> int" where
  "hash_loop hash_value [] = hash_value"
| "hash_loop hash_value (char # rest) =
     hash_loop (int char + (push_bit 5 hash_value - hash_value)) rest"

definition hash_of :: "pystr \<Rightarrow> int" where
  "hash_of str_id = hash_loop 0 str_id"

definition hue :: "int \<Rightarrow> int" where
  "hue hash_value = \<bar>hash_value mod 360\<bar>"

definition saturation :: "int \<Rightarrow> int" where
  "saturation hash_value = 65 + \<bar>drop_bit 8 hash_value\<bar> mod 20"

definition lightness :: "int \<Rightarrow> int" where
  "lightness hash_value = 55 + \<bar>drop_bit 16 hash_value\<bar> mod 15"

text \<open>
  The accumulator that the specification describes: the same update on a 32-bit
  two's-complement word, read back as a signed integer. It is written from the
  specification, to be compared with \<open>hash_loop\<close>.
\<close>

fun spec_hash32_loop :: "32 word \<Rightarrow> pystr \<Rightarrow> 32 word" where
  "spec_hash32_loop h [] = h"
| "spec_hash32_loop h (c # rest) = spec_hash32_loop (of_nat c + (push_bit 5 h - h)) rest"

definition spec_hash32 :: "pystr \<Rightarrow> int" where
  "spec_hash32 s = sint (spec_hash32_loop 0 s)"

section \<open>Python floats\<close>

text \<open>
  A Python \<open>float\<close> is an IEEE 754 binary64 number. A finite one is a rational
  \<open>n * 2 ^ e\<close> with \<open>\<bar>n\<bar> \<le> 2 ^ 53\<close> and \<open>- 1074 \<le> e\<close>, kept here as a real number;
  the infinities and NaN are merged into \<open>NonFinite\<close>, which every operation of the
  source propagates. Each arithmetic operation returns the exact result rounded to the
  nearest double, ties to even (\<open>round53\<close>); a rounded magnitude of \<open>2 ^ 1024\<close> or more
  is an overflow.
\<close>

datatype pyfloat = Finite real | NonFinite

definition pow2 :: "int \<Rightarrow> real" where
  "pow2 e = (if 0 \<le> e then 2 ^ nat e else 1 / 2 ^ nat (- e))"

definition ilog2 :: "real \<Rightarrow> int" where
  \<comment> \<open>for \<open>0 < x\<close>, the exponent \<open>k\<close> with \<open>2 ^ k \<le> x < 2 ^ (k + 1)\<close>\<close>
  "ilog2 x = (if 1 \<le> x then bitlen \<lfloor>x\<rfloor> - 1 else - bitlen (\<lceil>1 / x\<rceil> - 1))"

definition rne :: "real \<Rightarrow> int" where
  \<comment> \<open>round to the nearest integer, ties to the even one\<close>
  "rne x = (let f = \<lfloor>x\<rfloor>; d = x - of_int f in
     if d < 1 / 2 then f else if 1 / 2 < d then f + 1 else if even f then f else f + 1)"

definition quantum :: "real \<Rightarrow> int" where
  \<comment> \<open>exponent of the unit in the last place of the doubles around \<open>x\<close>\<close>
  "quantum x = max (ilog2 \<bar>x\<bar> - 52) (- 1074)"

definition round53 :: "real \<Rightarrow> real" where
  "round53 x = (if x = 0 then 0 else of_int (rne (x / pow2 (quantum x))) * pow2 (quantum x))"

definition fl :: "real \<Rightarrow> pyfloat" where
  "fl x = (let r = round53 x in if \<bar>r\<bar> < 2 ^ 1024 then Finite r else NonFinite)"

text \<open>\<open>int / int\<close>: the correctly rounded quotient, or an exception.\<close>

definition int_truediv :: "int \<Rightarrow> int \<Rightarrow> py_error + pyfloat" where
  "int_truediv a b =
     (if b = 0 then Inl ZeroDivisionError
      else case fl (of_int a / of_int b) of
             NonFinite \<Rightarrow> Inl OverflowError
           | Finite r \<Rightarrow> Inr (Finite r))"

text \<open>The conversion of an \<open>int\<close> operand of a mixed operation.\<close>

definition float_of_int :: "int \<Rightarrow> py_error + real" where
  "float_of_int n =
     (case fl (of_int n) of NonFinite \<Rightarrow> Inl OverflowError | Finite r \<Rightarrow> Inr r)"

definition float_add :: "pyfloat \<Rightarrow> pyfloat \<Rightarrow> pyfloat" where
  "float_add a b = (case (a, b) of (Finite x, Finite y) \<Rightarrow> fl (x + y) | _ \<Rightarrow> NonFinite)"

definition float_sub :: "pyfloat \<Rightarrow> pyfloat \<Rightarrow> pyfloat" where
  "float_sub a b = (case (a, b) of (Finite x, Finite y) \<Rightarrow> fl (x - y) | _ \<Rightarrow> NonFinite)"

definition float_mul :: "pyfloat \<Rightarrow> pyfloat \<Rightarrow> pyfloat" where
  "float_mul a b = (case (a, b) of (Finite x, Finite y) \<Rightarrow> fl (x * y) | _ \<Rightarrow> NonFinite)"

definition float_abs :: "pyfloat \<Rightarrow> pyfloat" where
  "float_abs a = (case a of Finite x \<Rightarrow> Finite \<bar>x\<bar> | NonFinite \<Rightarrow> NonFinite)"

text \<open>\<open>float / int\<close> and \<open>float % int\<close>: the \<open>int\<close> is converted first.\<close>

definition float_truediv_int :: "pyfloat \<Rightarrow> int \<Rightarrow> py_error + pyfloat" where
  "float_truediv_int a n =
     bind_result (float_of_int n) (\<lambda>y.
       if y = 0 then Inl ZeroDivisionError
       else case a of Finite x \<Rightarrow> Inr (fl (x / y)) | NonFinite \<Rightarrow> Inr NonFinite)"

text \<open>
  \<open>float % int\<close> is C's \<open>fmod\<close> (exact, with the sign of the dividend), moved by one
  modulus when its sign differs from the modulus's.
\<close>

definition trunc :: "real \<Rightarrow> int" where
  "trunc x = (if 0 \<le> x then \<lfloor>x\<rfloor> else \<lceil>x\<rceil>)"

definition float_mod_int :: "pyfloat \<Rightarrow> int \<Rightarrow> py_error + pyfloat" where
  "float_mod_int a n =
     bind_result (float_of_int n) (\<lambda>y.
       if y = 0 then Inl ZeroDivisionError
       else case a of
           NonFinite \<Rightarrow> Inr NonFinite
         | Finite x \<Rightarrow>
             (let md = x - y * of_int (trunc (x / y))
              in if md \<noteq> 0 \<and> ((y < 0) \<noteq> (md < 0)) then Inr (fl (md + y))
                 else Inr (Finite md)))"

text \<open>\<open>int(x)\<close> truncates a finite float towards zero and raises on the others.\<close>

definition py_int :: "pyfloat \<Rightarrow> py_error + int" where
  "py_int a = (case a of Finite x \<Rightarrow> Inr (trunc x) | NonFinite \<Rightarrow> Inl FloatToIntError)"

section \<open>Formatting (line 46)\<close>

definition hex_digit :: "nat \<Rightarrow> char" where
  "hex_digit d = ''0123456789ABCDEF'' ! d"

fun hex_upper :: "nat \<Rightarrow> string" where
  "hex_upper n = (if n < 16 then [hex_digit n] else hex_upper (n div 16) @ [hex_digit (n mod 16)])"

text \<open>
  The format specification \<open>02X\<close>: upper-case hexadecimal, padded with zeros after
  the sign to a width of at least two characters.
\<close>

definition format_02X :: "int \<Rightarrow> string" where
  "format_02X n =
     (if n < 0 then CHR ''-'' # hex_upper (nat (- n))
      else replicate (2 - length (hex_upper (nat n))) CHR ''0'' @ hex_upper (nat n))"

section \<open>\<open>generate_color_for_product\<close>\<close>

text \<open>
  Lines 25 to 40: the chroma \<open>c\<close>, the second component \<open>x\<close> and the offset \<open>m\<close>,
  and the components \<open>r, g, b\<close> chosen by the sextant of the hue. The integer \<open>0\<close>
  of a component is converted when \<open>m\<close> is added to it.
\<close>

definition hsl_components ::
  "int \<Rightarrow> int \<Rightarrow> int \<Rightarrow> py_error + (pyfloat \<times> pyfloat \<times> pyfloat \<times> pyfloat)" where
  "hsl_components h s l =
     bind_result (int_truediv (2 * l) 100) (\<lambda>t.
     bind_result (float_of_int s) (\<lambda>sf.
     bind_result (float_truediv_int
         (float_mul (float_sub (Finite 1) (float_abs (float_sub t (Finite 1)))) (Finite sf))
         100) (\<lambda>c.
     bind_result (int_truediv h 60) (\<lambda>q.
     bind_result (float_mod_int q 2) (\<lambda>q2.
     let x = float_mul c (float_sub (Finite 1) (float_abs (float_sub q2 (Finite 1)))) in
     bind_result (int_truediv l 100) (\<lambda>lf.
     bind_result (float_truediv_int c 2) (\<lambda>c2.
     let m = float_sub lf c2 in
     if h < 60 then Inr (c, x, Finite 0, m)
     else if h < 120 then Inr (x, c, Finite 0, m)
     else if h < 180 then Inr (Finite 0, c, x, m)
     else if h < 240 then Inr (Finite 0, x, c, m)
     else if h < 300 then Inr (x, Finite 0, c, m)
     else Inr (c, Finite 0, x, m))))))))"

text \<open>Lines 42 to 44: \<open>int((r + m) * 255)\<close>.\<close>

definition channel_value :: "pyfloat \<Rightarrow> pyfloat \<Rightarrow> pyfloat" where
  "channel_value component m = float_mul (float_add component m) (Finite 255)"

definition hsl_to_rgb :: "int \<Rightarrow> int \<Rightarrow> int \<Rightarrow> py_error + (int \<times> int \<times> int)" where
  "hsl_to_rgb h s l =
     bind_result (hsl_components h s l) (\<lambda>(r, g, b, m).
     bind_result (py_int (channel_value r m)) (\<lambda>r.
     bind_result (py_int (channel_value g m)) (\<lambda>g.
     bind_result (py_int (channel_value b m)) (\<lambda>b.
     Inr (r, g, b)))))"

text \<open>
  The argument is \<open>str_id\<close>, the string \<open>str(product_id)\<close> of line 15; the caller
  in \<open>color_rows\<close> applies \<open>py_str\<close>.
\<close>

definition generate_color_for_product :: "pystr \<Rightarrow> py_error + pystr" where
  "generate_color_for_product str_id =
     (let hash_value = hash_of str_id;
          h = hue hash_value;
          s = saturation hash_value;
          l = lightness hash_value
      in bind_result (hsl_to_rgb h s l) (\<lambda>(r, g, b).
           Inr (str (CHR ''#'' # format_02X r @ format_02X g @ format_02X b))))"

section \<open>\<open>add_colors_to_csv\<close>\<close>

text \<open>
  A CSV file is kept as the list of records that \<open>csv.reader\<close> yields for it, the
  header first; an empty line yields the empty record. The file system maps a path to
  the file stored there.
\<close>

type_synonym csv_file = "pystr list list"

type_synonym filesystem = "pystr \<rightharpoonup> csv_file"

text \<open>
  A row of \<open>csv.DictReader\<close> is a dictionary in insertion order. Its string keys are
  the \<open>cells\<close>, whose value is \<open>None\<close> where the record was shorter than the header;
  the surplus cells of a longer record are stored under the key \<open>None\<close> (\<open>restkey\<close>).
\<close>

record rowdict =
  cells :: "(pystr \<times> pystr option) list"
  restkey :: "pystr list option"

definition dict_zip :: "pystr list \<Rightarrow> pystr list \<Rightarrow> (pystr \<times> pystr option) list" where
  \<comment> \<open>\<open>dict(zip(fieldnames, row))\<close>: a later pair replaces the value of an equal key\<close>
  "dict_zip fieldnames row = AList.updates fieldnames (map Some row) []"

definition DictReader_row :: "pystr list \<Rightarrow> pystr list \<Rightarrow> rowdict" where
  "DictReader_row fieldnames row =
     (let d = dict_zip fieldnames row; lf = length fieldnames; lr = length row
      in if lf < lr then \<lparr>cells = d, restkey = Some (drop lf row)\<rparr>
         else \<lparr>cells = fold (\<lambda>key. AList.update key None) (drop lr fieldnames) d,
               restkey = None\<rparr>)"

text \<open>
  Line 54 opens the input file without \<open>newline=''\<close>, so the text layer translates
  every carriage return, alone or followed by a line feed, into a line feed before
  \<open>csv.reader\<close> sees it. Between records this only ends the line; inside a quoted
  cell it changes the cell. (Line 76 opens the output file with \<open>newline=''\<close>: the
  cells are written as they are.)
\<close>

fun universal_newlines :: "pystr \<Rightarrow> pystr" where
  "universal_newlines [] = []"
| "universal_newlines [c] = [if c = 13 then 10 else c]"
| "universal_newlines (c # d # rest) =
     (if c = 13 \<and> d = 10 then 10 # universal_newlines rest
      else if c = 13 then 10 # universal_newlines (d # rest)
      else c # universal_newlines (d # rest))"

definition read_record :: "pystr list \<Rightarrow> pystr list" where
  "read_record r = map universal_newlines r"

text \<open>\<open>rows = list(reader)\<close> and \<open>reader.fieldnames\<close>; empty records are skipped.\<close>

definition DictReader :: "csv_file \<Rightarrow> rowdict list \<times> pystr list option" where
  "DictReader f =
     (case f of
        [] \<Rightarrow> ([], None)
      | header # records \<Rightarrow>
          (let fieldnames = read_record header
           in (map (DictReader_row fieldnames)
                 (filter (\<lambda>r. r \<noteq> []) (map read_record records)),
               Some fieldnames)))"

text \<open>
  \<open>csv.DictWriter\<close> refuses a row with a key outside its field names, and writes
  the empty string for a missing key and for the value \<open>None\<close>.
\<close>

definition dict_to_list :: "pystr list \<Rightarrow> rowdict \<Rightarrow> py_error + pystr list" where
  "dict_to_list fieldnames rowdict =
     (if restkey rowdict \<noteq> None \<or> (\<exists>k \<in> set (map fst (cells rowdict)). k \<notin> set fieldnames)
      then Inl ValueError
      else Inr (map (\<lambda>key. case map_of (cells rowdict) key of
                              Some (Some v) \<Rightarrow> v | _ \<Rightarrow> []) fieldnames))"

fun writerows :: "pystr list \<Rightarrow> rowdict list \<Rightarrow> csv_file \<Rightarrow> py_error option \<times> csv_file" where
  "writerows fieldnames [] out = (None, out)"
| "writerows fieldnames (rowdict # rest) out =
     (case dict_to_list fieldnames rowdict of
        Inl e \<Rightarrow> (Some e, out)
      | Inr record \<Rightarrow> writerows fieldnames rest (out @ [record]))"

text \<open>\<open>str(product_id)\<close> of a cell value.\<close>

definition py_str :: "pystr option \<Rightarrow> pystr" where
  "py_str v = (case v of None \<Rightarrow> str ''None'' | Some s \<Rightarrow> s)"

text \<open>
  Lines 68 to 73: the loop over the rows, with the dictionary \<open>product_colors\<close> in
  insertion order.
\<close>

fun color_rows ::
  "(pystr option \<times> pystr) list \<Rightarrow> rowdict list \<Rightarrow>
     py_error + ((pystr option \<times> pystr) list \<times> rowdict list)" where
  "color_rows product_colors [] = Inr (product_colors, [])"
| "color_rows product_colors (row # rest) =
     (case map_of (cells row) (str ''ProductId'') of
        None \<Rightarrow> Inl KeyError
      | Some product_id \<Rightarrow>
          bind_result
            (if map_of product_colors product_id = None
             then bind_result (generate_color_for_product (py_str product_id))
                    (\<lambda>color. Inr (AList.update product_id color product_colors))
             else Inr product_colors) (\<lambda>product_colors.
          case map_of product_colors product_id of
            None \<Rightarrow> Inl KeyError
          | Some color \<Rightarrow>
              bind_result (color_rows product_colors rest) (\<lambda>(product_colors, rest).
              Inr (product_colors,
                   row\<lparr>cells := AList.update (str ''Color'') (Some color) (cells row)\<rparr> # rest))))"

text \<open>
  What lines 81 to 83 print: the numbers of items and of unique product identifiers;
  \<open>ColorExists\<close> stands for the message of line 61.
\<close>

datatype report = ColorExists | Added nat nat

text \<open>
  Lines 84 and 85 sort the items of \<open>product_colors\<close>. The keys are distinct, so the
  sort compares keys, and the comparison of \<open>None\<close> (the identifier of a short row) with
  a string raises \<open>TypeError\<close>; by then the output file is written.
\<close>

definition sorted_items_raises :: "(pystr option \<times> pystr) list \<Rightarrow> bool" where
  "sorted_items_raises product_colors =
     (list_ex (\<lambda>(k, v). k = None) product_colors \<and>
      list_ex (\<lambda>(k, v). k \<noteq> None) product_colors)"

definition add_colors_to_csv ::
  "pystr \<Rightarrow> pystr option \<Rightarrow> filesystem \<Rightarrow> (py_error + report) \<times> filesystem" where
  "add_colors_to_csv input_file output_file fs =
     (let output_file = (case output_file of None \<Rightarrow> input_file | Some p \<Rightarrow> p)
      in case fs input_file of
           None \<Rightarrow> (Inl FileNotFoundError, fs)
         | Some f \<Rightarrow>
             (case DictReader f of
                (rows, None) \<Rightarrow> (Inl TypeError, fs)
              | (rows, Some fieldnames) \<Rightarrow>
                  if str ''Color'' \<in> set fieldnames then (Inr ColorExists, fs)
                  else
                    let fieldnames = fieldnames @ [str ''Color'']
                    in (case color_rows [] rows of
                          Inl e \<Rightarrow> (Inl e, fs)
                        | Inr (product_colors, rows) \<Rightarrow>
                            (case writerows fieldnames rows [fieldnames] of
                               (Some e, out) \<Rightarrow> (Inl e, fs(output_file \<mapsto> out))
                             | (None, out) \<Rightarrow>
                                 (if sorted_items_raises product_colors then Inl TypeError
                                  else Inr (Added (length rows) (length product_colors)),
                                  fs(output_file \<mapsto> out))))))"

text \<open>
  The Table of the specification: a header of distinct field names, not empty, and
  records that all have one cell for each field.
\<close>

definition is_table :: "csv_file \<Rightarrow> bool" where
  "is_table f =
     (case f of
        [] \<Rightarrow> False
      | fieldnames # records \<Rightarrow>
          fieldnames \<noteq> [] \<and> distinct fieldnames \<and>
          (\<forall>r \<in> set records. length r = length fieldnames))"

section \<open>\<open>main\<close>\<close>

definition startswith :: "pystr \<Rightarrow> pystr \<Rightarrow> bool" where
  "startswith s p = (take (length p) s = p)"

definition endswith :: "pystr \<Rightarrow> pystr \<Rightarrow> bool" where
  "endswith s p = (length p \<le> length s \<and> drop (length s - length p) s = p)"

text \<open>
  How a run of \<open>main\<close> ends: \<open>sys.exit(1)\<close>, the end of the loop with the reports
  of the files, or an exception that nothing catches.
\<close>

datatype exit = SysExit1 | Finished "report list" | Uncaught py_error "report list"

fun process_files :: "pystr list \<Rightarrow> report list \<Rightarrow> filesystem \<Rightarrow> exit \<times> filesystem" where
  "process_files [] reports fs = (Finished reports, fs)"
| "process_files (filename # rest) reports fs =
     (case add_colors_to_csv (str ''Results/'' @ filename) None fs of
        (Inl e, fs') \<Rightarrow> (Uncaught e reports, fs')
      | (Inr r, fs') \<Rightarrow> process_files rest (reports @ [r]) fs')"

text \<open>
  The first argument is the listing of the folder \<open>Results\<close>, \<open>None\<close> when the
  folder does not exist.
\<close>

definition main :: "pystr list option \<Rightarrow> filesystem \<Rightarrow> exit \<times> filesystem" where
  "main listing fs =
     (case listing of
        None \<Rightarrow> (SysExit1, fs)
      | Some names \<Rightarrow>
          (let files = filter (\<lambda>f. startswith f (str ''item_placements_'') \<and>
                                     endswith f (str ''.csv'')) names
           in if files = [] then (SysExit1, fs) else process_files files [] fs))"

text \<open>
  The cell that \<open>csv.DictWriter\<close> writes for a key of a row, and a line of the
  output: the cells of the row that \<open>csv.DictReader\<close> makes of a record, under the
  field names in their order, followed by the colour that
  \<open>generate_color_for_product\<close> returns for the row's \<open>ProductId\<close>.
\<close>

definition cell_of :: "rowdict \<Rightarrow> pystr \<Rightarrow> pystr" where
  "cell_of row key = (case map_of (cells row) key of Some (Some v) \<Rightarrow> v | _ \<Rightarrow> [])"

definition written_line :: "pystr list \<Rightarrow> pystr list \<Rightarrow> pystr list \<Rightarrow> bool" where
  "written_line fieldnames line line' =
     (\<exists>pid color.
        map_of (cells (DictReader_row fieldnames line)) (str ''ProductId'') = Some (Some pid) \<and>
        generate_color_for_product pid = Inr color \<and>
        line' = map (cell_of (DictReader_row fieldnames line)) fieldnames @ [color])"

text \<open>The invariant of \<open>product_colors\<close> in the loop of lines 69 to 73.\<close>

definition colors_known :: "(pystr option \<times> pystr) list \<Rightarrow> bool" where
  "colors_known product_colors =
     (\<forall>k v. map_of product_colors k = Some v \<longrightarrow>
        generate_color_for_product (py_str k) = Inr v)"

definition colored :: "rowdict \<Rightarrow> pystr \<Rightarrow> rowdict" where
  "colored row color = row\<lparr>cells := AList.update (str ''Color'') (Some color) (cells row)\<rparr>"

section \<open>The conversion on finite floats\<close>

text \<open>
  The values that lines 25 to 44 compute as long as every float stays finite: the
  chroma \<open>c\<close> from the lightness and the saturation, the second component \<open>x\<close> from
  \<open>c\<close> and the hue, the offset \<open>m\<close>, and the value of a channel before \<open>int\<close>. The
  lemmas below show that \<open>hsl_components\<close> takes this path on every input in range.
\<close>

definition chroma :: "int \<Rightarrow> int \<Rightarrow> real" where
  "chroma l s =
     round53 (round53 (round53 (1 - \<bar>round53 (round53 (of_int (2 * l) / of_int 100) - 1)\<bar>)
                * round53 (of_int s)) / 100)"

definition second_component :: "real \<Rightarrow> int \<Rightarrow> real" where
  "second_component c h =
     (let q = round53 (of_int h / of_int 60);
          q2 = q - 2 * of_int (trunc (q / 2))
      in round53 (c * round53 (1 - \<bar>round53 (q2 - 1)\<bar>)))"

definition offset :: "int \<Rightarrow> real \<Rightarrow> real" where
  "offset l c = round53 (round53 (of_int l / of_int 100) - round53 (c / 2))"

definition channel_real :: "real \<Rightarrow> real \<Rightarrow> real" where
  "channel_real v m = round53 (round53 (v + m) * 255)"

text \<open>
  An upper bound of the channel values for a lightness \<open>l\<close> and the saturations from
  \<open>slo\<close> to \<open>shi\<close>.
\<close>

definition top_value :: "int \<Rightarrow> int \<Rightarrow> int \<Rightarrow> real" where
  "top_value l slo shi =
     channel_real (max (chroma l shi) (round53 (chroma l shi))) (offset l (chroma l slo))"

section \<open>Example files\<close>

definition placements :: filesystem where
  "placements = [str ''Results/item_placements_1.csv'' \<mapsto>
     [[str ''ItemId'', str ''ProductId''], [str ''a'', str ''1''], [str ''b'', str ''1'']]]"

definition placements_colored :: filesystem where
  "placements_colored = [str ''Results/item_placements_1.csv'' \<mapsto>
     [[str ''ItemId'', str ''ProductId'', str ''Color''],
      [str ''a'', str ''1'', str ''#D6BB41''], [str ''b'', str ''1'', str ''#D6BB41'']]]"

definition batch :: filesystem where
  "batch = [str ''Results/item_placements_0.csv'' \<mapsto> [[str ''ItemId''], [str ''a'']],
            str ''Results/item_placements_1.csv'' \<mapsto>
              [[str ''ItemId'', str ''ProductId''], [str ''a'', str ''1''], [str ''b'', str ''1'']],
            str ''Results/item_placements_2.csv'' \<mapsto> [[str ''ItemId'', str ''ProductId'']]]"

text \<open>A table with a carriage return and a line feed inside a quoted cell.\<close>

definition placements_cr :: filesystem where
  "placements_cr = [str ''Results/item_placements_1.csv'' \<mapsto>
     [[str ''ItemId'', str ''ProductId''], [[97, 13, 10, 98], str ''1'']]]"

section \<open>The hash\<close>

lemma hash_loop_append: "hash_loop h (s @ [c]) = int c + 31 * hash_loop h s"
  by (induction s arbitrary: h) (simp_all add: push_bit_eq_mult)

lemma hash_loop_nonneg: "0 \<le> h \<Longrightarrow> 0 \<le> hash_loop h s"
proof (induction s arbitrary: h)
  case Nil
  then show ?case by simp
next
  case (Cons c s)
  have "0 \<le> int c + (push_bit 5 h - h)"
    using Cons.prems by (simp add: push_bit_eq_mult)
  then show ?case using Cons.IH by simp
qed

lemma hash_of_nonneg: "0 \<le> hash_of s"
  by (simp add: hash_of_def hash_loop_nonneg)

text \<open>
  C10: the accumulator of \<open>generate_color_for_product\<close> is updated without any
  wrap-around (each character turns \<open>h\<close> into \<open>ord(char) + 31 * h\<close>) and is not
  negative after any prefix of the identifier; so the three calls of \<open>abs\<close> return their
  argument, and the hue is the remainder of the hash modulo 360.
\<close>

theorem hash_nonnegative_abs_identity:
  "hash_of (str_id @ [char]) = int char + 31 * hash_of str_id
   \<and> 0 \<le> hash_of (take n str_id)
   \<and> \<bar>hash_of str_id mod 360\<bar> = hash_of str_id mod 360
   \<and> \<bar>drop_bit 8 (hash_of str_id)\<bar> = drop_bit 8 (hash_of str_id)
   \<and> \<bar>drop_bit 16 (hash_of str_id)\<bar> = drop_bit 16 (hash_of str_id)
   \<and> hue (hash_of str_id) = hash_of str_id mod 360"
  using hash_of_nonneg [of str_id] hash_of_nonneg [of "take n str_id"]
  by (simp add: hue_def hash_of_def hash_loop_append)

text \<open>
  The 32-bit accumulator of the specification is the accumulator of the code reduced
  modulo \<open>2 ^ 32\<close>; the two agree as long as the hash stays below \<open>2 ^ 31\<close>.
\<close>

lemma spec_hash32_loop_refines:
  "spec_hash32_loop (word_of_int h) s = word_of_int (hash_loop h s)"
proof (induction s arbitrary: h)
  case Nil
  then show ?case by simp
next
  case (Cons c s)
  have "of_nat c + (push_bit 5 (word_of_int h) - word_of_int h)
          = (word_of_int (int c + (push_bit 5 h - h)) :: 32 word)"
    by (simp add: push_bit_eq_mult)
  then show ?case using Cons.IH [of "int c + (push_bit 5 h - h)"] by simp
qed

lemma spec_hash32_agrees_below_2_31:
  "hash_of s < 2 ^ 31 \<Longrightarrow> spec_hash32 s = hash_of s"
proof -
  assume small: "hash_of s < 2 ^ 31"
  have "spec_hash32_loop 0 s = word_of_int (hash_of s)"
    using spec_hash32_loop_refines [of 0 s] by (simp add: hash_of_def)
  then have "spec_hash32 s = sint (word_of_int (hash_of s) :: 32 word)"
    by (simp add: spec_hash32_def)
  also have "\<dots> = hash_of s"
    using small hash_of_nonneg [of s]
    by (simp add: sint_sbintrunc' signed_take_bit_int_eq_self)
  finally show ?thesis .
qed

text \<open>
  C1: the claim that the accumulator wraps around as a 32-bit signed integer. For the
  seven-character identifier \<open>1234567\<close> the code computes the hash 44967839284, which is
  not a 32-bit value; a 32-bit signed accumulator would hold 2018166324.
\<close>

theorem hash_of_exceeds_32_bits:
  "hash_of (str ''1234567'') = 44967839284 \<and> spec_hash32 (str ''1234567'') = 2018166324"
  by (simp add: hash_of_def spec_hash32_def str_def)

section \<open>Evaluation of the example\<close>

lemmas float_eval = fl_def round53_def quantum_def ilog2_def rne_def pow2_def trunc_def
  Let_def compute_bitlen bind_result_def int_truediv_def float_of_int_def float_add_def
  float_sub_def float_mul_def float_abs_def float_truediv_int_def float_mod_int_def py_int_def

lemma hsl_49: "hsl_to_rgb 49 65 55 = Inr (214, 187, 65)"
  by (simp add: hsl_to_rgb_def hsl_components_def channel_value_def float_eval)

lemma fmt: "format_02X 214 = ''D6''" "format_02X 187 = ''BB''" "format_02X 65 = ''41''"
  by (simp_all add: format_02X_def hex_digit_def)

lemma color_of_1: "generate_color_for_product [49] = Inr (str ''#D6BB41'')"
  by (simp add: generate_color_for_product_def hash_of_def hue_def saturation_def lightness_def
      drop_bit_eq_div hsl_49 fmt bind_result_def)

lemmas csv_eval = add_colors_to_csv_def DictReader_def DictReader_row_def dict_zip_def
  dict_to_list_def py_str_def bind_result_def color_of_1 str_def is_table_def
  read_record_def sorted_items_raises_def Let_def

lemma placements_run:
  "add_colors_to_csv (str ''Results/item_placements_1.csv'') None placements
     = (Inr (Added 2 1), placements_colored)"
  by (simp add: placements_def placements_colored_def csv_eval)

lemma placements_cr_run:
  "add_colors_to_csv (str ''Results/item_placements_1.csv'') None placements_cr
     = (Inr (Added 1 1),
        placements_cr(str ''Results/item_placements_1.csv'' \<mapsto>
          [[str ''ItemId'', str ''ProductId'', str ''Color''],
           [[97, 10, 98], str ''1'', str ''#D6BB41'']]))"
  by (simp add: placements_cr_def csv_eval)

section \<open>Universal newlines\<close>

lemma universal_newlines_id: "13 \<notin> set s \<Longrightarrow> universal_newlines s = s"
  by (induction s rule: universal_newlines.induct) auto

lemma universal_newlines_no_LF:
  "10 \<notin> set (universal_newlines s) \<Longrightarrow> universal_newlines s = s"
  by (induction s rule: universal_newlines.induct) (auto split: if_splits)

lemma read_record_mem:
  assumes "10 \<notin> set k" "13 \<notin> set k"
  shows "k \<in> set (read_record fieldnames) \<longleftrightarrow> k \<in> set fieldnames"
proof
  assume "k \<in> set (read_record fieldnames)"
  then obtain x where x: "x \<in> set fieldnames" "universal_newlines x = k"
    by (auto simp: read_record_def)
  with assms(1) have "universal_newlines x = x"
    using universal_newlines_no_LF [of x] by simp
  with x show "k \<in> set fieldnames" by simp
next
  assume "k \<in> set fieldnames"
  then have "universal_newlines k \<in> set (read_record fieldnames)"
    by (simp add: read_record_def)
  then show "k \<in> set (read_record fieldnames)"
    by (simp add: universal_newlines_id [OF assms(2)])
qed

lemma Color_read:
  "str ''Color'' \<in> set (read_record fieldnames) \<longleftrightarrow> str ''Color'' \<in> set fieldnames"
  by (rule read_record_mem) (simp_all add: str_def)

lemma ProductId_read:
  "str ''ProductId'' \<in> set (read_record fieldnames) \<longleftrightarrow> str ''ProductId'' \<in> set fieldnames"
  by (rule read_record_mem) (simp_all add: str_def)

lemma read_record_id:
  "(\<And>c. c \<in> set r \<Longrightarrow> 13 \<notin> set c) \<Longrightarrow> read_record r = r"
  by (simp add: read_record_def universal_newlines_id map_idI)

section \<open>The rows of \<open>csv.DictReader\<close> and \<open>csv.DictWriter\<close>\<close>

lemma bind_result_Inr_iff:
  "bind_result r f = Inr v \<longleftrightarrow> (\<exists>w. r = Inr w \<and> f w = Inr v)"
  by (cases r) (simp_all add: bind_result_def)

lemma map_upds_distinct_lookup:
  "distinct ks \<Longrightarrow> length ks = length ys \<Longrightarrow> map (m(ks [\<mapsto>] ys)) ks = map Some ys"
proof (induction ks ys arbitrary: m rule: list_induct2')
  case (4 k ks y ys)
  then have "map ((m(k \<mapsto> y))(ks [\<mapsto>] ys)) ks = map Some ys" by simp
  moreover have "((m(k \<mapsto> y))(ks [\<mapsto>] ys)) k = Some y" using 4 by simp
  ultimately show ?case by simp
qed simp_all

lemma keys_dict_zip: "fst ` set (dict_zip fieldnames row) \<subseteq> set fieldnames"
proof -
  have "fst ` set (dict_zip fieldnames row) = dom (map_of (dict_zip fieldnames row))"
    by (simp add: dom_map_of_conv_image_fst)
  also have "\<dots> \<subseteq> set fieldnames"
    by (auto simp: dict_zip_def AList.updates_conv' dest: in_set_takeD)
  finally show ?thesis .
qed

lemma keys_fold_update_None:
  "fst ` set (fold (\<lambda>key. AList.update key None) ks d) = set ks \<union> fst ` set d"
  by (induction ks arbitrary: d) (auto simp: AList.dom_update)

lemma keys_DictReader_row:
  "fst ` set (cells (DictReader_row fieldnames row)) \<subseteq> set fieldnames"
  using keys_dict_zip [of fieldnames row]
  by (auto simp: DictReader_row_def Let_def keys_fold_update_None dest: in_set_dropD)

lemma map_upds_Some_value:
  "(m(ks [\<mapsto>] map Some vs)) key = Some y \<Longrightarrow> m key = Some y \<or> (\<exists>v. y = Some v)"
proof (induction ks vs arbitrary: m rule: list_induct2')
  case (4 k ks v vs)
  have "(m(k # ks [\<mapsto>] map Some (v # vs))) = (m(k \<mapsto> Some v))(ks [\<mapsto>] map Some vs)"
    by (simp del: map_upds_twist)
  with "4.prems" have "((m(k \<mapsto> Some v))(ks [\<mapsto>] map Some vs)) key = Some y" by simp
  from "4.IH" [OF this] show ?case by (auto split: if_splits)
qed simp_all

lemma DictReader_row_full:
  assumes "length row = length fieldnames"
  shows "restkey (DictReader_row fieldnames row) = None"
    and "map_of (cells (DictReader_row fieldnames row))
           = Map.empty(fieldnames [\<mapsto>] map Some row)"
  using assms by (simp_all add: DictReader_row_def dict_zip_def AList.updates_conv')

lemma cells_Some:
  assumes "length row = length fieldnames"
    and "map_of (cells (DictReader_row fieldnames row)) key = Some y"
  shows "\<exists>v. y = Some v"
  using assms(2) map_upds_Some_value [of Map.empty fieldnames row key y]
  by (simp add: DictReader_row_full(2) [OF assms(1)])

lemma DictReader_row_table:
  assumes "distinct fieldnames" "length row = length fieldnames"
  shows "map (cell_of (DictReader_row fieldnames row)) fieldnames = row"
proof -
  have "map (map_of (cells (DictReader_row fieldnames row))) fieldnames = map Some (map Some row)"
    using assms map_upds_distinct_lookup [of fieldnames "map Some row" Map.empty]
    by (simp add: DictReader_row_full(2))
  moreover have "map (cell_of (DictReader_row fieldnames row)) fieldnames
      = map (\<lambda>v. case v of Some (Some v) \<Rightarrow> v | _ \<Rightarrow> [])
          (map (map_of (cells (DictReader_row fieldnames row))) fieldnames)"
    by (simp add: cell_of_def)
  ultimately show ?thesis by (simp add: map_idI)
qed

text \<open>
  The loop of lines 69 to 73: each row gets the colour of its identifier, and the keys
  of \<open>product_colors\<close> are identifiers of rows.
\<close>

lemma color_rows_result:
  assumes "color_rows pc rows = Inr (pc', rows')" "colors_known pc"
  shows "list_all2 (\<lambda>row row'. \<exists>pid color.
            map_of (cells row) (str ''ProductId'') = Some pid \<and>
            generate_color_for_product (py_str pid) = Inr color \<and>
            row' = colored row color) rows rows'
         \<and> fst ` set pc' \<subseteq>
             fst ` set pc \<union> {k. \<exists>row \<in> set rows. map_of (cells row) (str ''ProductId'') = Some k}"
  using assms
proof (induction rows arbitrary: pc pc' rows')
  case Nil
  then show ?case by simp
next
  case (Cons row rows)
  from Cons.prems(1) obtain pid where pid: "map_of (cells row) (str ''ProductId'') = Some pid"
    by (auto split: option.splits)
  define step where "step = (if map_of pc pid = None
             then bind_result (generate_color_for_product (py_str pid))
                    (\<lambda>color. Inr (AList.update pid color pc))
             else Inr pc)"
  from Cons.prems(1) pid obtain pc1 where pc1: "step = Inr pc1"
    and rest: "(case map_of pc1 pid of
            None \<Rightarrow> Inl KeyError
          | Some color \<Rightarrow>
              bind_result (color_rows pc1 rows) (\<lambda>(product_colors, rest).
              Inr (product_colors,
                   row\<lparr>cells := AList.update (str ''Color'') (Some color) (cells row)\<rparr> # rest)))
         = Inr (pc', rows')"
    by (auto simp: bind_result_Inr_iff step_def)
  have known1: "colors_known pc1"
    using pc1 Cons.prems(2)
    by (auto simp: step_def colors_known_def bind_result_Inr_iff AList.update_conv' split: if_splits)
  have keys1: "fst ` set pc1 \<subseteq> insert pid (fst ` set pc)"
  proof (cases "map_of pc pid = None")
    case True
    then obtain w where "pc1 = AList.update pid w pc"
      using pc1 by (auto simp: step_def bind_result_Inr_iff)
    then show ?thesis by (simp add: AList.dom_update)
  next
    case False
    then have "pc1 = pc" using pc1 by (auto simp: step_def)
    then show ?thesis by auto
  qed
  from rest obtain color where color: "map_of pc1 pid = Some color"
    by (auto split: option.splits)
  with rest obtain rest' where tail: "color_rows pc1 rows = Inr (pc', rest')"
    and rows': "rows' = colored row color # rest'"
    by (auto simp: bind_result_Inr_iff colored_def)
  have "generate_color_for_product (py_str pid) = Inr color"
    using known1 color by (simp add: colors_known_def)
  moreover note IH = Cons.IH [OF tail known1]
  ultimately have "list_all2 (\<lambda>row row'. \<exists>pid color.
            map_of (cells row) (str ''ProductId'') = Some pid \<and>
            generate_color_for_product (py_str pid) = Inr color \<and>
            row' = colored row color) (row # rows) rows'"
    using pid rows' by auto
  moreover have "fst ` set pc' \<subseteq> fst ` set pc \<union>
      {k. \<exists>r \<in> set (row # rows). map_of (cells r) (str ''ProductId'') = Some k}"
  proof
    fix k
    assume "k \<in> fst ` set pc'"
    with IH have "k \<in> fst ` set pc1 \<or>
        (\<exists>r \<in> set rows. map_of (cells r) (str ''ProductId'') = Some k)"
      by blast
    then have "k = pid \<or> k \<in> fst ` set pc \<or>
        (\<exists>r \<in> set rows. map_of (cells r) (str ''ProductId'') = Some k)"
      using keys1 by blast
    then show "k \<in> fst ` set pc \<union>
        {k. \<exists>r \<in> set (row # rows). map_of (cells r) (str ''ProductId'') = Some k}"
      using pid by auto
  qed
  ultimately show ?case by blast
qed

lemma writerows_all_ok:
  "list_all2 (\<lambda>row record. dict_to_list fieldnames row = Inr record) rows records \<Longrightarrow>
   writerows fieldnames rows out = (None, out @ records)"
  by (induction rows records arbitrary: out rule: list_all2_induct) simp_all

lemma dict_to_list_colored:
  assumes "length line = length fieldnames" "str ''Color'' \<notin> set fieldnames"
  shows "dict_to_list (fieldnames @ [str ''Color''])
           (colored (DictReader_row fieldnames line) color)
         = Inr (map (cell_of (DictReader_row fieldnames line)) fieldnames @ [color])"
proof -
  let ?row = "DictReader_row fieldnames line"
  have keys: "fst ` set (cells (colored ?row color)) \<subseteq> set (fieldnames @ [str ''Color''])"
    using keys_DictReader_row [of fieldnames line] by (auto simp: colored_def AList.dom_update)
  have rest: "restkey (colored ?row color) = None"
    using DictReader_row_full(1) [OF assms(1)] by (simp add: colored_def)
  have old: "map (\<lambda>key. case map_of (cells (colored ?row color)) key of
                              Some (Some v) \<Rightarrow> v | _ \<Rightarrow> []) fieldnames
        = map (cell_of ?row) fieldnames"
    using assms(2) by (auto simp: colored_def AList.update_conv' cell_of_def)
  have new: "map_of (cells (colored ?row color)) (str ''Color'') = Some (Some color)"
    by (simp add: colored_def AList.update_conv')
  show ?thesis
    using keys rest old new by (auto simp: dict_to_list_def)
qed

section \<open>The result of \<open>add_colors_to_csv\<close> on a table\<close>

lemma list_all2_extend:
  assumes "list_all2 P xs ys" "\<And>x y. x \<in> set xs \<Longrightarrow> P x y \<Longrightarrow> \<exists>z. Q y z \<and> R x z"
  shows "\<exists>zs. list_all2 Q ys zs \<and> list_all2 R xs zs"
  using assms
proof (induction xs ys rule: list_all2_induct)
  case Nil
  then show ?case by simp
next
  case (Cons x xs y ys)
  from Cons.prems [of x y] Cons.hyps(1) obtain z where "Q y z" "R x z" by auto
  moreover from Cons.IH Cons.prems obtain zs where "list_all2 Q ys zs" "list_all2 R xs zs"
    by auto
  ultimately have "list_all2 Q (y # ys) (z # zs) \<and> list_all2 R (x # xs) (z # zs)" by simp
  then show ?case by blast
qed

lemma table_rows_written:
  assumes len: "\<And>line. line \<in> set lines \<Longrightarrow> length line = length fieldnames"
    and nocolor: "str ''Color'' \<notin> set fieldnames"
    and loop: "color_rows [] (map (DictReader_row fieldnames) lines) = Inr (pc, rows')"
  shows "\<exists>lines'. list_all2 (written_line fieldnames) lines lines' \<and>
           writerows (fieldnames @ [str ''Color'']) rows' [fieldnames @ [str ''Color'']]
             = (None, (fieldnames @ [str ''Color'']) # lines')"
    and "\<not> sorted_items_raises pc" and "length rows' = length lines"
proof -
  let ?hdr = "fieldnames @ [str ''Color'']"
  have "colors_known []" by (simp add: colors_known_def)
  note res = color_rows_result [OF loop this]
  from res have rows': "list_all2 (\<lambda>line row'. \<exists>pid color.
            map_of (cells (DictReader_row fieldnames line)) (str ''ProductId'') = Some pid \<and>
            generate_color_for_product (py_str pid) = Inr color \<and>
            row' = colored (DictReader_row fieldnames line) color) lines rows'"
    by (simp add: list_all2_map1)
  then show "length rows' = length lines" by (auto dest: list_all2_lengthD)
  have "k \<noteq> None" if "k \<in> fst ` set pc" for k
  proof -
    from res that obtain line where "line \<in> set lines"
      "map_of (cells (DictReader_row fieldnames line)) (str ''ProductId'') = Some k"
      by auto
    with cells_Some [OF len] show ?thesis by blast
  qed
  then have "\<not> list_ex (\<lambda>(k, v). k = None) pc"
    by (force simp: list_ex_iff)
  then show "\<not> sorted_items_raises pc" by (simp add: sorted_items_raises_def)
  have "\<exists>line'. dict_to_list ?hdr row' = Inr line' \<and> written_line fieldnames line line'"
    if line: "line \<in> set lines"
      and ex: "\<exists>pid color.
            map_of (cells (DictReader_row fieldnames line)) (str ''ProductId'') = Some pid \<and>
            generate_color_for_product (py_str pid) = Inr color \<and>
            row' = colored (DictReader_row fieldnames line) color" for line row'
  proof -
    from ex obtain pid color where
      pid: "map_of (cells (DictReader_row fieldnames line)) (str ''ProductId'') = Some pid"
      and color: "generate_color_for_product (py_str pid) = Inr color"
      and row': "row' = colored (DictReader_row fieldnames line) color"
      by blast
    from cells_Some [OF len [OF line] pid] obtain v where v: "pid = Some v" by blast
    with color have "generate_color_for_product v = Inr color" by (simp add: py_str_def)
    with pid v have "written_line fieldnames line
        (map (cell_of (DictReader_row fieldnames line)) fieldnames @ [color])"
      by (auto simp: written_line_def)
    moreover have "dict_to_list ?hdr row'
        = Inr (map (cell_of (DictReader_row fieldnames line)) fieldnames @ [color])"
      unfolding row' by (rule dict_to_list_colored [OF len [OF line] nocolor])
    ultimately show ?thesis by blast
  qed
  with rows' obtain lines' where
    written: "list_all2 (\<lambda>row' line'. dict_to_list ?hdr row' = Inr line') rows' lines'"
    and aug: "list_all2 (written_line fieldnames) lines lines'"
    using list_all2_extend [of _ lines rows' "\<lambda>row' line'. dict_to_list ?hdr row' = Inr line'"
      "written_line fieldnames"]
    by blast
  from writerows_all_ok [OF written, of "[?hdr]"]
  have "writerows ?hdr rows' [?hdr] = (None, ?hdr # lines')"
    by simp
  with aug show "\<exists>lines'. list_all2 (written_line fieldnames) lines lines' \<and>
           writerows ?hdr rows' [?hdr] = (None, ?hdr # lines')" by blast
qed

lemma DictReader_table:
  assumes "is_table (header # records)"
  shows "DictReader (header # records)
           = (map (DictReader_row (read_record header)) (map read_record records),
              Some (read_record header))"
    and "\<And>line. line \<in> set (map read_record records)
           \<Longrightarrow> length line = length (read_record header)"
proof -
  from assms have ne: "header \<noteq> []"
    and len: "\<And>line. line \<in> set records \<Longrightarrow> length line = length header"
    by (simp_all add: is_table_def)
  show len': "length line = length (read_record header)"
    if "line \<in> set (map read_record records)" for line
    using that len by (auto simp: read_record_def)
  have "filter (\<lambda>r. r \<noteq> []) (map read_record records) = map read_record records"
    using len' ne by (fastforce simp: filter_id_conv read_record_def)
  then show "DictReader (header # records)
           = (map (DictReader_row (read_record header)) (map read_record records),
              Some (read_record header))"
    by (simp add: DictReader_def Let_def)
qed

lemma add_colors_result:
  assumes stored: "fs input_file = Some (header # records)"
    and tbl: "is_table (header # records)"
    and ok: "add_colors_to_csv input_file output_file fs = (Inr (Added n k), fs')"
  shows "str ''Color'' \<notin> set (read_record header) \<and>
         (\<exists>lines'. list_all2 (written_line (read_record header)) (map read_record records) lines' \<and>
            fs' = fs((case output_file of None \<Rightarrow> input_file | Some p \<Rightarrow> p) \<mapsto>
                     (read_record header @ [str ''Color'']) # lines'))"
proof -
  let ?F = "read_record header"
  let ?rows = "map (DictReader_row ?F) (map read_record records)"
  note reader = DictReader_table(1) [OF tbl] and len = DictReader_table(2) [OF tbl]
  from ok stored reader have nocolor: "str ''Color'' \<notin> set ?F"
    by (auto simp: add_colors_to_csv_def split: if_splits)
  from ok stored reader nocolor obtain pc rows' where
    loop: "color_rows [] ?rows = Inr (pc, rows')"
    by (auto simp: add_colors_to_csv_def Let_def split: sum.splits prod.splits option.splits)
  from table_rows_written(1) [OF len nocolor loop] obtain lines' where
    "list_all2 (written_line ?F) (map read_record records) lines'"
    "writerows (?F @ [str ''Color'']) rows' [?F @ [str ''Color'']]
       = (None, (?F @ [str ''Color'']) # lines')"
    by blast
  with ok stored reader nocolor loop show ?thesis
    by (auto simp: add_colors_to_csv_def Let_def split: if_splits)
qed

lemma written_line_lookup:
  assumes "written_line fieldnames line row" "str ''Color'' \<notin> set fieldnames"
  shows "\<exists>pid color.
           map_of (zip (fieldnames @ [str ''Color'']) row) (str ''ProductId'') = Some pid \<and>
           map_of (zip (fieldnames @ [str ''Color'']) row) (str ''Color'') = Some color \<and>
           generate_color_for_product pid = Inr color"
proof -
  let ?g = "cell_of (DictReader_row fieldnames line)"
  from assms(1) obtain pid color where
    pid: "map_of (cells (DictReader_row fieldnames line)) (str ''ProductId'') = Some (Some pid)"
    and color: "generate_color_for_product pid = Inr color"
    and row: "row = map ?g fieldnames @ [color]"
    by (auto simp: written_line_def)
  from pid have "str ''ProductId'' \<in> fst ` set (cells (DictReader_row fieldnames line))"
    by (metis map_of_eq_None_iff option.distinct(1))
  then have key: "str ''ProductId'' \<in> set fieldnames"
    using keys_DictReader_row [of fieldnames line] by blast
  have g: "?g (str ''ProductId'') = pid" using pid by (simp add: cell_of_def)
  have "zip (fieldnames @ [str ''Color'']) row
          = zip fieldnames (map ?g fieldnames) @ [(str ''Color'', color)]"
    by (simp add: row)
  then have "map_of (zip (fieldnames @ [str ''Color'']) row)
      = [str ''Color'' \<mapsto> color] ++ map_of (zip fieldnames (map ?g fieldnames))"
    by simp
  then have "map_of (zip (fieldnames @ [str ''Color'']) row) key
      = (if key \<in> set fieldnames then Some (?g key)
         else if key = str ''Color'' then Some color else None)" for key
    by (simp add: map_of_zip_map map_add_def)
  then show ?thesis using key g color assms(2) by auto
qed

text \<open>
  C6: when the header of the file already has a field \<open>Color\<close>, \<open>add_colors_to_csv\<close>
  reports that the column exists and returns before it writes: the file system, and so
  every field and row of the table, is what it was.
\<close>

theorem already_augmented_unchanged:
  assumes "fs input_file = Some (fieldnames # records)" "str ''Color'' \<in> set fieldnames"
  shows "add_colors_to_csv input_file output_file fs = (Inr ColorExists, fs)"
  using assms by (simp add: add_colors_to_csv_def DictReader_def Let_def Color_read)

theorem already_augmented_unchanged_witness:
  "placements_colored (str ''Results/item_placements_1.csv'') =
     Some ([str ''ItemId'', str ''ProductId'', str ''Color''] #
           [[str ''a'', str ''1'', str ''#D6BB41''], [str ''b'', str ''1'', str ''#D6BB41'']])
   \<and> str ''Color'' \<in> set [str ''ItemId'', str ''ProductId'', str ''Color'']
   \<and> add_colors_to_csv (str ''Results/item_placements_1.csv'') None placements_colored
       = (Inr ColorExists, placements_colored)"
proof -
  have 1: "placements_colored (str ''Results/item_placements_1.csv'') =
     Some ([str ''ItemId'', str ''ProductId'', str ''Color''] #
           [[str ''a'', str ''1'', str ''#D6BB41''], [str ''b'', str ''1'', str ''#D6BB41'']])"
    by (simp add: placements_colored_def)
  have 2: "str ''Color'' \<in> set [str ''ItemId'', str ''ProductId'', str ''Color'']" by simp
  from already_augmented_unchanged [where fs = placements_colored
      and input_file = "str ''Results/item_placements_1.csv''" and output_file = None, OF 1 2] 1 2
  show ?thesis by blast
qed

text \<open>
  The file \<open>placements_cr\<close> holds a Table with one row, whose first cell is \<open>a\<close>,
  carriage return, line feed, \<open>b\<close>.
\<close>

lemma placements_cr_is_table:
  "\<exists>f. placements_cr (str ''Results/item_placements_1.csv'') = Some f \<and> is_table f"
  by (simp add: placements_cr_def is_table_def str_def)

text \<open>
  C8: the written header is the header as read followed by \<open>Color\<close>, and the rows keep
  their order, but not every field value is kept: the input is read with universal
  newlines (line 54) and written without (line 76). On the Table of \<open>placements_cr\<close>
  the run succeeds and writes the cell \<open>a\<close>, carriage return, line feed, \<open>b\<close> back as
  \<open>a\<close>, line feed, \<open>b\<close>.
\<close>

theorem carriage_return_not_preserved:
  "placements_cr (str ''Results/item_placements_1.csv'') =
     Some [[str ''ItemId'', str ''ProductId''], [[97, 13, 10, 98], str ''1'']]
   \<and> add_colors_to_csv (str ''Results/item_placements_1.csv'') None placements_cr
       = (Inr (Added 1 1),
          placements_cr(str ''Results/item_placements_1.csv'' \<mapsto>
            [[str ''ItemId'', str ''ProductId'', str ''Color''],
             [[97, 10, 98], str ''1'', str ''#D6BB41'']]))"
  using placements_cr_run by (simp add: placements_cr_def)

text \<open>
  Where no field name and no cell has a carriage return, the header and every row are
  kept and only the field \<open>Color\<close> is added.
\<close>

lemma rows_preserved_without_carriage_return:
  assumes stored: "fs input_file = Some (header # records)"
    and tbl: "is_table (header # records)"
    and ok: "add_colors_to_csv input_file output_file fs = (Inr (Added n k), fs')"
    and nocr: "\<And>r c. r \<in> set (header # records) \<Longrightarrow> c \<in> set r \<Longrightarrow> 13 \<notin> set c"
  shows "\<exists>lines'.
           fs' = fs((case output_file of None \<Rightarrow> input_file | Some p \<Rightarrow> p) \<mapsto>
                    (header @ [str ''Color'']) # lines') \<and>
           list_all2 (\<lambda>line line'. \<exists>color. line' = line @ [color]) records lines'"
proof -
  from tbl have dist: "distinct header"
    and len: "\<And>line. line \<in> set records \<Longrightarrow> length line = length header"
    by (simp_all add: is_table_def)
  have hdr: "read_record header = header"
    using nocr [of header] by (intro read_record_id) simp
  have recs: "map read_record records = records"
    using nocr by (intro map_idI read_record_id) auto
  from add_colors_result [OF stored tbl ok] obtain lines' where
    rows: "list_all2 (written_line header) records lines'"
    and fs': "fs' = fs((case output_file of None \<Rightarrow> input_file | Some p \<Rightarrow> p) \<mapsto>
                    (header @ [str ''Color'']) # lines')"
    unfolding hdr recs by blast
  have "\<exists>color. line' = line @ [color]"
    if "line \<in> set records" "written_line header line line'" for line line'
    using that DictReader_row_table [OF dist len] by (auto simp: written_line_def)
  with rows have "list_all2 (\<lambda>line line'. \<exists>color. line' = line @ [color]) records lines'"
    by (simp add: list_all2_conv_all_nth)
  with fs' show ?thesis by blast
qed

text \<open>
  C7: when \<open>add_colors_to_csv\<close> succeeds on a table, two rows of the file it writes
  that have the same value in the field \<open>ProductId\<close> have the same value in the field
  \<open>Color\<close>.
\<close>

theorem same_ProductId_same_Color:
  assumes "fs input_file = Some (fieldnames # records)"
    and "is_table (fieldnames # records)"
    and "add_colors_to_csv input_file output_file fs = (Inr (Added n k), fs')"
    and "fs' (case output_file of None \<Rightarrow> input_file | Some p \<Rightarrow> p) = Some (fieldnames' # lines')"
    and "row1 \<in> set lines'" and "row2 \<in> set lines'"
    and "map_of (zip fieldnames' row1) (str ''ProductId'')
           = map_of (zip fieldnames' row2) (str ''ProductId'')"
  shows "\<exists>color. map_of (zip fieldnames' row1) (str ''Color'') = Some color \<and>
                 map_of (zip fieldnames' row2) (str ''Color'') = Some color"
proof -
  let ?F = "read_record fieldnames"
  from add_colors_result [OF assms(1-3)] assms(4)
  have nocolor: "str ''Color'' \<notin> set ?F"
    and hdr: "fieldnames' = ?F @ [str ''Color'']"
    and rows: "list_all2 (written_line ?F) (map read_record records) lines'"
    by auto
  have look: "\<exists>pid color.
           map_of (zip fieldnames' row) (str ''ProductId'') = Some pid \<and>
           map_of (zip fieldnames' row) (str ''Color'') = Some color \<and>
           generate_color_for_product pid = Inr color" if "row \<in> set lines'" for row
  proof -
    from that rows obtain line where "written_line ?F line row"
      by (metis in_set_conv_nth list_all2_conv_all_nth)
    then show ?thesis
      unfolding hdr using written_line_lookup [OF _ nocolor] by blast
  qed
  from look [OF assms(5)] look [OF assms(6)] assms(7) show ?thesis by auto
qed

theorem same_ProductId_same_Color_witness:
  "placements (str ''Results/item_placements_1.csv'') =
     Some ([str ''ItemId'', str ''ProductId''] # [[str ''a'', str ''1''], [str ''b'', str ''1'']])
   \<and> is_table ([str ''ItemId'', str ''ProductId''] # [[str ''a'', str ''1''], [str ''b'', str ''1'']])
   \<and> add_colors_to_csv (str ''Results/item_placements_1.csv'') None placements
       = (Inr (Added 2 1), placements_colored)
   \<and> placements_colored (str ''Results/item_placements_1.csv'') =
     Some ([str ''ItemId'', str ''ProductId'', str ''Color''] #
           [[str ''a'', str ''1'', str ''#D6BB41''], [str ''b'', str ''1'', str ''#D6BB41'']])
   \<and> map_of (zip [str ''ItemId'', str ''ProductId'', str ''Color''] [str ''a'', str ''1'', str ''#D6BB41''])
         (str ''ProductId'')
       = map_of (zip [str ''ItemId'', str ''ProductId'', str ''Color''] [str ''b'', str ''1'', str ''#D6BB41''])
         (str ''ProductId'')
   \<and> (\<exists>color.
         map_of (zip [str ''ItemId'', str ''ProductId'', str ''Color''] [str ''a'', str ''1'', str ''#D6BB41''])
           (str ''Color'') = Some color \<and>
         map_of (zip [str ''ItemId'', str ''ProductId'', str ''Color''] [str ''b'', str ''1'', str ''#D6BB41''])
           (str ''Color'') = Some color)"
proof -
  let ?p = "str ''Results/item_placements_1.csv''"
  let ?hdr' = "[str ''ItemId'', str ''ProductId'', str ''Color'']"
  let ?r1 = "[str ''a'', str ''1'', str ''#D6BB41'']"
  let ?r2 = "[str ''b'', str ''1'', str ''#D6BB41'']"
  have 1: "placements ?p =
     Some ([str ''ItemId'', str ''ProductId''] # [[str ''a'', str ''1''], [str ''b'', str ''1'']])"
    by (simp add: placements_def)
  have 2: "is_table ([str ''ItemId'', str ''ProductId''] # [[str ''a'', str ''1''], [str ''b'', str ''1'']])"
    by (simp add: is_table_def str_def)
  note 3 = placements_run
  have 4: "placements_colored (case None of None \<Rightarrow> ?p | Some p \<Rightarrow> p) = Some (?hdr' # [?r1, ?r2])"
    by (simp add: placements_colored_def)
  have 5: "?r1 \<in> set [?r1, ?r2]" and 6: "?r2 \<in> set [?r1, ?r2]" by simp_all
  have 7: "map_of (zip ?hdr' ?r1) (str ''ProductId'') = map_of (zip ?hdr' ?r2) (str ''ProductId'')"
    by (simp add: str_def)
  from same_ProductId_same_Color [where fs = placements and input_file = ?p
      and output_file = None, OF 1 2 3 4 5 6 7] 1 2 3 4 7
  show ?thesis by simp
qed

text \<open>
  C9, as the claim states it, does not hold: no exception is caught anywhere. With a
  first file whose header has no \<open>ProductId\<close>, \<open>main\<close> ends with the uncaught
  \<open>KeyError\<close> and the second file is never processed; and a table without rows is
  rewritten with the field \<open>Color\<close> and reported as a success.
\<close>

theorem missing_ProductId_stops_batch:
  "main (Some [str ''item_placements_0.csv'', str ''item_placements_1.csv'']) batch
     = (Uncaught KeyError [], batch)
   \<and> add_colors_to_csv (str ''Results/item_placements_2.csv'') None batch
     = (Inr (Added 0 0),
        batch(str ''Results/item_placements_2.csv'' \<mapsto> [[str ''ItemId'', str ''ProductId'', str ''Color'']]))"
  by (simp add: main_def startswith_def endswith_def batch_def csv_eval)

text \<open>
  C9, amended: a table without a field \<open>Color\<close> (one that has the field is only
  reported as already augmented, C6), with at least one row and no field \<open>ProductId\<close>,
  makes \<open>add_colors_to_csv\<close> raise \<open>KeyError\<close> before it writes, so the table is left
  as it was; the exception ends the batch, and none of the files listed after the table
  is processed. A table without a field \<open>Color\<close> and with no rows is no error: it is
  rewritten with \<open>Color\<close> after the field names as read, and reported as a success.
\<close>

theorem missing_ProductId_raises_KeyError:
  "(fs (str ''Results/'' @ filename) = Some (fieldnames # records) \<and>
      line \<in> set records \<and> line \<noteq> [] \<and>
      str ''Color'' \<notin> set fieldnames \<and> str ''ProductId'' \<notin> set fieldnames
    \<longrightarrow> add_colors_to_csv (str ''Results/'' @ filename) None fs = (Inl KeyError, fs) \<and>
        process_files (filename # rest) reports fs = (Uncaught KeyError reports, fs))
   \<and> (fs input_file = Some [fieldnames] \<and> str ''Color'' \<notin> set fieldnames
    \<longrightarrow> add_colors_to_csv input_file None fs
          = (Inr (Added 0 0),
             fs(input_file \<mapsto> [read_record fieldnames @ [str ''Color'']])))"
proof (intro conjI impI)
  let ?F = "read_record fieldnames"
  let ?lines = "filter (\<lambda>r. r \<noteq> []) (map read_record records)"
  assume a: "fs (str ''Results/'' @ filename) = Some (fieldnames # records) \<and>
      line \<in> set records \<and> line \<noteq> [] \<and>
      str ''Color'' \<notin> set fieldnames \<and> str ''ProductId'' \<notin> set fieldnames"
  then have "read_record line \<in> set ?lines"
    by (auto simp: read_record_def)
  then obtain l0 ls where rows: "?lines = l0 # ls"
    by (cases ?lines) auto
  have "str ''ProductId'' \<notin> set ?F" using a by (simp add: ProductId_read)
  then have "map_of (cells (DictReader_row ?F l0)) (str ''ProductId'') = None"
    using keys_DictReader_row [of ?F l0] by (auto simp: map_of_eq_None_iff)
  then have "color_rows [] (map (DictReader_row ?F) ?lines) = Inl KeyError"
    by (simp add: rows)
  with a show run: "add_colors_to_csv (str ''Results/'' @ filename) None fs = (Inl KeyError, fs)"
    by (simp add: add_colors_to_csv_def DictReader_def Let_def Color_read)
  show "process_files (filename # rest) reports fs = (Uncaught KeyError reports, fs)"
    by (simp add: run)
next
  assume "fs input_file = Some [fieldnames] \<and> str ''Color'' \<notin> set fieldnames"
  then show "add_colors_to_csv input_file None fs
          = (Inr (Added 0 0), fs(input_file \<mapsto> [read_record fieldnames @ [str ''Color'']]))"
    by (simp add: add_colors_to_csv_def DictReader_def Let_def Color_read
        sorted_items_raises_def)
qed

theorem missing_ProductId_raises_KeyError_witness:
  "(batch (str ''Results/'' @ str ''item_placements_0.csv'') = Some ([str ''ItemId''] # [[str ''a'']]) \<and>
      [str ''a''] \<in> set [[str ''a'']] \<and> [str ''a''] \<noteq> [] \<and>
      str ''Color'' \<notin> set [str ''ItemId''] \<and> str ''ProductId'' \<notin> set [str ''ItemId''])
   \<and> add_colors_to_csv (str ''Results/'' @ str ''item_placements_0.csv'') None batch = (Inl KeyError, batch)
   \<and> process_files [str ''item_placements_0.csv'', str ''item_placements_1.csv''] [] batch
        = (Uncaught KeyError [], batch)
   \<and> (batch (str ''Results/item_placements_2.csv'') = Some [[str ''ItemId'', str ''ProductId'']] \<and>
        str ''Color'' \<notin> set [str ''ItemId'', str ''ProductId''])
   \<and> add_colors_to_csv (str ''Results/item_placements_2.csv'') None batch
          = (Inr (Added 0 0), batch(str ''Results/item_placements_2.csv'' \<mapsto>
               [read_record [str ''ItemId'', str ''ProductId''] @ [str ''Color'']]))"
proof -
  have 1: "batch (str ''Results/'' @ str ''item_placements_0.csv'') = Some ([str ''ItemId''] # [[str ''a'']]) \<and>
      [str ''a''] \<in> set [[str ''a'']] \<and> [str ''a''] \<noteq> [] \<and>
      str ''Color'' \<notin> set [str ''ItemId''] \<and> str ''ProductId'' \<notin> set [str ''ItemId'']"
    by (simp add: batch_def str_def)
  have 2: "batch (str ''Results/item_placements_2.csv'') = Some [[str ''ItemId'', str ''ProductId'']] \<and>
        str ''Color'' \<notin> set [str ''ItemId'', str ''ProductId'']"
    by (simp add: batch_def str_def)
  from missing_ProductId_raises_KeyError [where fs = batch and filename = "str ''item_placements_0.csv''"
      and fieldnames = "[str ''ItemId'']" and records = "[[str ''a'']]" and line = "[str ''a'']"
      and rest = "[str ''item_placements_1.csv'']" and reports = "[]"] 1
  have 3: "add_colors_to_csv (str ''Results/'' @ str ''item_placements_0.csv'') None batch = (Inl KeyError, batch)
   \<and> process_files [str ''item_placements_0.csv'', str ''item_placements_1.csv''] [] batch
        = (Uncaught KeyError [], batch)"
    by blast
  from missing_ProductId_raises_KeyError [where fs = batch 
      and input_file = "str ''Results/item_placements_2.csv''"
      and fieldnames = "[str ''ItemId'', str ''ProductId'']"] 2
  have 4: "add_colors_to_csv (str ''Results/item_placements_2.csv'') None batch
          = (Inr (Added 0 0), batch(str ''Results/item_placements_2.csv'' \<mapsto>
               [read_record [str ''ItemId'', str ''ProductId''] @ [str ''Color'']]))"
    by blast
  from 1 2 3 4 show ?thesis by blast
qed

section \<open>Rounding to the nearest double is monotone\<close>

lemma pow2_eq_powr: "pow2 e = 2 powr (of_int e)"
  by (simp add: pow2_def powr_real_of_int field_simps)

lemma pow2_pos: "0 < pow2 e"
  by (simp add: pow2_eq_powr)

lemma pow2_add: "pow2 (a + b) = pow2 a * pow2 b"
  by (simp add: pow2_eq_powr powr_add)

lemma pow2_mono: "a \<le> b \<Longrightarrow> pow2 a \<le> pow2 b"
  by (simp add: pow2_eq_powr)

lemma pow2_of_nat: "0 \<le> e \<Longrightarrow> pow2 e = 2 ^ nat e"
  by (simp add: pow2_def)

lemma pow2_minus: "pow2 (- k) = 1 / pow2 k"
  by (simp add: pow2_eq_powr powr_minus divide_simps)

lemma bitlen_pow2_bounds:
  assumes "0 < n"
  shows "pow2 (bitlen n - 1) \<le> of_int n" and "of_int n + 1 \<le> pow2 (bitlen n)"
proof -
  from bitlen_bounds [OF assms]
  have lo: "2 ^ nat (bitlen n - 1) \<le> n" and hi: "n + 1 \<le> 2 ^ nat (bitlen n)"
    by auto
  have b1: "1 \<le> bitlen n" using assms by (simp add: bitlen_alt_def)
  have "(of_int (2 ^ nat (bitlen n - 1)) :: real) \<le> of_int n"
    using lo by (simp only: of_int_le_iff)
  then show "pow2 (bitlen n - 1) \<le> of_int n"
    using b1 by (simp add: pow2_of_nat)
  have "(of_int (n + 1) :: real) \<le> of_int (2 ^ nat (bitlen n))"
    using hi by (simp only: of_int_le_iff)
  then show "of_int n + 1 \<le> pow2 (bitlen n)"
    using b1 by (simp add: pow2_of_nat)
qed

lemma ilog2_bounds:
  assumes "0 < x"
  shows "pow2 (ilog2 x) \<le> x" and "x < pow2 (ilog2 x + 1)"
proof -
  have "pow2 (ilog2 x) \<le> x \<and> x < pow2 (ilog2 x + 1)"
  proof (cases "1 \<le> x")
    case True
    define n where "n = \<lfloor>x\<rfloor>"
    have n: "0 < n" "of_int n \<le> x" "x < of_int n + 1"
      using True unfolding n_def by linarith+
    from bitlen_pow2_bounds [OF n(1)] n(2,3)
    have "pow2 (bitlen n - 1) \<le> x" "x < pow2 (bitlen n - 1 + 1)" by simp_all
    then show ?thesis using True by (simp add: ilog2_def n_def)
  next
    case False
    define y where "y = 1 / x"
    define n where "n = \<lceil>y\<rceil> - 1"
    have y: "1 < y" using False assms by (simp add: y_def)
    have n: "0 < n" "of_int n < y" "y \<le> of_int n + 1"
      using y unfolding n_def by linarith+
    from bitlen_pow2_bounds [OF n(1)] n(2,3)
    have A: "pow2 (bitlen n - 1) < y" and B: "y \<le> pow2 (bitlen n)" by linarith+
    have x: "x = 1 / y" using assms by (simp add: y_def)
    have "pow2 (- bitlen n) \<le> x"
      unfolding pow2_minus x using B y by (simp add: frac_le)
    moreover have "x < pow2 (- bitlen n + 1)"
    proof -
      have "- bitlen n + 1 = - (bitlen n - 1)" by simp
      then have "pow2 (- bitlen n + 1) = 1 / pow2 (bitlen n - 1)"
        by (simp only: pow2_minus)
      moreover have "1 / y < 1 / pow2 (bitlen n - 1)"
        using A pow2_pos [of "bitlen n - 1"] by (simp add: frac_less2)
      ultimately show ?thesis using x by simp
    qed
    ultimately show ?thesis using False by (simp add: ilog2_def y_def n_def)
  qed
  then show "pow2 (ilog2 x) \<le> x" and "x < pow2 (ilog2 x + 1)" by auto
qed

lemma ilog2_mono:
  assumes "0 < x" "x \<le> y"
  shows "ilog2 x \<le> ilog2 y"
proof (rule ccontr)
  assume "\<not> ilog2 x \<le> ilog2 y"
  then have "ilog2 y + 1 \<le> ilog2 x" by simp
  then have "pow2 (ilog2 y + 1) \<le> pow2 (ilog2 x)" by (rule pow2_mono)
  also have "\<dots> \<le> x" using ilog2_bounds(1) [OF assms(1)] .
  also have "\<dots> \<le> y" by fact
  also have "\<dots> < pow2 (ilog2 y + 1)" using ilog2_bounds(2) [of y] assms by simp
  finally show False by simp
qed

lemma rne_of_int: "rne (of_int n) = n"
  by (simp add: rne_def)

lemma rne_bounds: "\<lfloor>x\<rfloor> \<le> rne x" "rne x \<le> \<lfloor>x\<rfloor> + 1"
  by (simp_all add: rne_def Let_def)

lemma rne_mono:
  assumes "x \<le> y"
  shows "rne x \<le> rne y"
proof (cases "\<lfloor>x\<rfloor> = \<lfloor>y\<rfloor>")
  case True
  have "x - of_int \<lfloor>x\<rfloor> \<le> y - of_int \<lfloor>y\<rfloor>" using assms True by simp
  then show ?thesis unfolding rne_def Let_def using True by auto
next
  case False
  then have "\<lfloor>x\<rfloor> < \<lfloor>y\<rfloor>" using floor_mono [OF assms] by simp
  then show ?thesis using rne_bounds(2) [of x] rne_bounds(1) [of y] by linarith
qed

lemma rne_le_int: "x \<le> of_int n \<Longrightarrow> rne x \<le> n"
  using rne_mono [of x "of_int n"] by (simp add: rne_of_int)

lemma rne_ge_int: "of_int n \<le> x \<Longrightarrow> n \<le> rne x"
  using rne_mono [of "of_int n" x] by (simp add: rne_of_int)

lemma rne_minus: "rne (- x) = - rne x"
proof (cases "x \<in> \<int>")
  case True
  then obtain n where "x = of_int n" by (auto elim: Ints_cases)
  then show ?thesis using rne_of_int [of n] rne_of_int [of "- n"] by simp
next
  case False
  then have ne: "x \<noteq> of_int \<lfloor>x\<rfloor>" by (metis Ints_of_int)
  then have f: "\<lfloor>- x\<rfloor> = - \<lfloor>x\<rfloor> - 1"
    by (simp add: floor_minus ceiling_altdef)
  from ne have d: "0 < x - of_int \<lfloor>x\<rfloor>" "x - of_int \<lfloor>x\<rfloor> < 1"
    by linarith+
  show ?thesis
    unfolding rne_def Let_def f using d by (auto simp: algebra_simps)
qed

lemma round53_minus: "round53 (- x) = - round53 x"
  by (simp add: round53_def quantum_def rne_minus)

lemma round53_nonneg: "0 \<le> x \<Longrightarrow> 0 \<le> round53 x"
proof -
  assume "0 \<le> x"
  then have "of_int 0 \<le> x / pow2 (quantum x)" using pow2_pos [of "quantum x"] by simp
  then have "0 \<le> rne (x / pow2 (quantum x))" by (rule rne_ge_int)
  then show ?thesis using pow2_pos [of "quantum x"] by (simp add: round53_def)
qed

lemma quantum_mono: "0 < x \<Longrightarrow> x \<le> y \<Longrightarrow> quantum x \<le> quantum y"
  using ilog2_mono [of x y] by (simp add: quantum_def)

lemma round53_mono_pos:
  assumes "0 < x" "x \<le> y"
  shows "round53 x \<le> round53 y"
proof -
  let ?qx = "quantum x" and ?qy = "quantum y"
  have y: "0 < y" using assms by simp
  have rx: "round53 x = of_int (rne (x / pow2 ?qx)) * pow2 ?qx"
    and ry: "round53 y = of_int (rne (y / pow2 ?qy)) * pow2 ?qy"
    using assms by (simp_all add: round53_def)
  have q: "?qx \<le> ?qy" using assms by (rule quantum_mono)
  show ?thesis
  proof (cases "?qx = ?qy")
    case True
    have "x / pow2 ?qy \<le> y / pow2 ?qy"
      using assms(2) pow2_pos [of ?qy] by (simp add: divide_right_mono)
    then have "rne (x / pow2 ?qy) \<le> rne (y / pow2 ?qy)" by (rule rne_mono)
    then show ?thesis unfolding rx ry True using pow2_pos [of ?qy] by simp
  next
    case False
    with q have lt: "?qx < ?qy" by simp
    define Ey where "Ey = ilog2 y"
    have ax: "\<bar>x\<bar> = x" and ay: "\<bar>y\<bar> = y" using assms by simp_all
    have qy: "?qy = Ey - 52" and qx: "ilog2 x - 52 \<le> ?qx"
      using lt unfolding quantum_def ax ay Ey_def by linarith+
    have Ex: "ilog2 x + 1 \<le> Ey" using qy qx lt by linarith
    have xB: "x \<le> pow2 Ey"
      using ilog2_bounds(2) [OF assms(1)] pow2_mono [OF Ex] by linarith
    have By: "pow2 Ey \<le> y"
      unfolding Ey_def using ilog2_bounds(1) [OF y] .
    \<comment> \<open>the power of two between them is a double in both binades\<close>
    have d: "0 \<le> Ey - ?qx" using lt qy by linarith
    have split_x: "pow2 Ey = pow2 (Ey - ?qx) * pow2 ?qx"
      using pow2_add [of "Ey - ?qx" ?qx] by simp
    have "x / pow2 ?qx \<le> pow2 (Ey - ?qx)"
      using xB pow2_pos [of ?qx] by (simp add: split_x pos_divide_le_eq)
    also have "pow2 (Ey - ?qx) = of_int (2 ^ nat (Ey - ?qx))"
      using d by (simp add: pow2_of_nat)
    finally have "rne (x / pow2 ?qx) \<le> 2 ^ nat (Ey - ?qx)" by (rule rne_le_int)
    then have "of_int (rne (x / pow2 ?qx)) \<le> (of_int (2 ^ nat (Ey - ?qx)) :: real)"
      by (simp only: of_int_le_iff)
    then have "of_int (rne (x / pow2 ?qx)) \<le> pow2 (Ey - ?qx)"
      using d by (simp add: pow2_of_nat)
    then have low: "round53 x \<le> pow2 Ey"
      unfolding rx split_x using pow2_pos [of ?qx] by simp
    have split_y: "pow2 Ey = pow2 52 * pow2 ?qy"
      using pow2_add [of 52 ?qy] by (simp add: qy)
    have "pow2 52 \<le> y / pow2 ?qy"
      using By pow2_pos [of ?qy] by (simp add: split_y pos_le_divide_eq)
    moreover have "pow2 52 = of_int (2 ^ 52)" by (simp add: pow2_of_nat)
    ultimately have "of_int (2 ^ 52) \<le> y / pow2 ?qy" by simp
    then have "2 ^ 52 \<le> rne (y / pow2 ?qy)" by (rule rne_ge_int)
    then have "(of_int (2 ^ 52) :: real) \<le> of_int (rne (y / pow2 ?qy))"
      by (simp only: of_int_le_iff)
    then have "pow2 52 \<le> of_int (rne (y / pow2 ?qy))"
      by (simp add: pow2_of_nat)
    then have high: "pow2 Ey \<le> round53 y"
      unfolding ry split_y using pow2_pos [of ?qy] by simp
    from low high show ?thesis by simp
  qed
qed

lemma round53_mono:
  assumes "x \<le> y"
  shows "round53 x \<le> round53 y"
proof -
  consider "0 < x" | "x = 0" | "x < 0" "0 \<le> y" | "x < 0" "y < 0" by linarith
  then show ?thesis
  proof cases
    case 1
    then show ?thesis using assms by (rule round53_mono_pos)
  next
    case 2
    then show ?thesis using assms round53_nonneg [of y] by (simp add: round53_def)
  next
    case 3
    have "0 \<le> round53 (- x)" using 3 by (intro round53_nonneg) simp
    then have "round53 x \<le> 0" by (simp add: round53_minus)
    then show ?thesis using round53_nonneg [OF 3(2)] by simp
  next
    case 4
    have "round53 (- y) \<le> round53 (- x)"
      using 4 assms by (intro round53_mono_pos) simp_all
    then show ?thesis by (simp add: round53_minus)
  qed
qed

section \<open>Doubles are fixed points of rounding\<close>

lemma pow2_strict_mono: "a < b \<Longrightarrow> pow2 a < pow2 b"
  by (simp add: pow2_eq_powr)

lemma pow2_le_iff: "pow2 a \<le> pow2 b \<longleftrightarrow> a \<le> b"
  by (simp add: pow2_eq_powr)

lemma pow2_less_iff: "pow2 a < pow2 b \<longleftrightarrow> a < b"
  by (simp add: pow2_eq_powr)

lemma pow2_diff: "pow2 a = pow2 (a - b) * pow2 b"
  using pow2_add [of "a - b" b] by simp

text \<open>A multiple of a power of two that is at least the quantum is a double.\<close>

lemma round53_multiple:
  assumes "x = of_int j * pow2 e" "quantum x \<le> e"
  shows "round53 x = x"
proof (cases "x = 0")
  case True
  then show ?thesis by (simp add: round53_def)
next
  case False
  define q where "q = quantum x"
  have q: "0 < pow2 q" by (rule pow2_pos)
  have "pow2 e = pow2 (e - q) * pow2 q" by (rule pow2_diff)
  also have "pow2 (e - q) = of_int (2 ^ nat (e - q))"
    using assms(2) by (simp add: pow2_of_nat q_def)
  finally have "x = of_int (j * 2 ^ nat (e - q)) * pow2 q"
    by (simp add: assms(1))
  then have xq: "x / pow2 q = of_int (j * 2 ^ nat (e - q))"
    using q by (simp add: nonzero_divide_eq_eq)
  then have "rne (x / pow2 q) = j * 2 ^ nat (e - q)"
    by (simp only: rne_of_int)
  then have "round53 x = x / pow2 q * pow2 q"
    using False xq by (simp add: round53_def q_def)
  then show ?thesis using q by simp
qed

lemma rne_small: "0 \<le> y \<Longrightarrow> y < 1 / 2 \<Longrightarrow> rne y = 0"
proof -
  assume y: "0 \<le> y" "y < 1 / 2"
  then have "\<lfloor>y\<rfloor> = 0" by (simp add: floor_eq_iff)
  then show ?thesis using y by (simp add: rne_def)
qed

lemma ilog2_less: "0 < r \<Longrightarrow> r < pow2 k \<Longrightarrow> ilog2 r < k"
  using ilog2_bounds(1) [of r] pow2_less_iff [of "ilog2 r" k] by linarith

lemma ilog2_le: "0 < r \<Longrightarrow> r \<le> pow2 k \<Longrightarrow> ilog2 r \<le> k"
  using ilog2_bounds(1) [of r] pow2_le_iff [of "ilog2 r" k] by linarith

lemma round53_idem_pos:
  assumes "0 < x"
  shows "round53 (round53 x) = round53 x"
proof -
  let ?q = "quantum x"
  define n where "n = rne (x / pow2 ?q)"
  define r where "r = round53 x"
  define E where "E = ilog2 x"
  have r: "r = of_int n * pow2 ?q" using assms by (simp add: r_def n_def round53_def)
  have r0: "0 \<le> r" unfolding r_def using assms by (intro round53_nonneg) simp
  show ?thesis
  proof (cases "r = 0")
    case True
    then show ?thesis by (simp add: r_def round53_def)
  next
    case False
    with r0 have rpos: "0 < r" by simp
    then have "0 < (of_int n :: real)" using pow2_pos [of ?q] by (simp add: r zero_less_mult_iff)
    then have npos: "1 \<le> n" by simp
    have qE: "E - 52 \<le> ?q" "- 1074 \<le> ?q" using assms by (simp_all add: quantum_def E_def)
    \<comment> \<open>the rounded value does not exceed the next power of two\<close>
    have xlt: "x < pow2 (E + 1)" unfolding E_def using ilog2_bounds(2) [OF assms] .
    have d: "0 \<le> E + 1 - ?q"
    proof (rule ccontr)
      assume "\<not> 0 \<le> E + 1 - ?q"
      then have "E + 1 \<le> ?q - 1" by simp
      then have "pow2 (E + 1) \<le> pow2 (?q - 1)" by (rule pow2_mono)
      also have "pow2 (?q - 1) = pow2 (- 1) * pow2 ?q" using pow2_add [of "- 1" ?q] by simp
      finally have "x / pow2 ?q < 1 / 2"
        using xlt pow2_pos [of ?q] by (simp add: pow2_def pos_divide_less_eq)
      moreover have "0 \<le> x / pow2 ?q" using assms pow2_pos [of ?q] by simp
      ultimately have "n = 0" unfolding n_def by (intro rne_small)
      with npos show False by simp
    qed
    have "x / pow2 ?q \<le> pow2 (E + 1 - ?q)"
      using xlt pow2_pos [of ?q] pow2_diff [of "E + 1" ?q] by (simp add: pos_divide_le_eq)
    also have "pow2 (E + 1 - ?q) = of_int (2 ^ nat (E + 1 - ?q))"
      using d by (simp add: pow2_of_nat)
    finally have "n \<le> 2 ^ nat (E + 1 - ?q)" unfolding n_def by (rule rne_le_int)
    then have "(of_int n :: real) \<le> of_int (2 ^ nat (E + 1 - ?q))" by (simp only: of_int_le_iff)
    then have "of_int n \<le> pow2 (E + 1 - ?q)" using d by (simp add: pow2_of_nat)
    then have rle: "r \<le> pow2 (E + 1)"
      unfolding r using pow2_pos [of ?q] pow2_diff [of "E + 1" ?q] by simp
    have "quantum r \<le> ?q \<or> r = of_int 1 * pow2 (E + 1) \<and> quantum r \<le> E + 1"
    proof (cases "r = pow2 (E + 1)")
      case True
      have "ilog2 r \<le> E + 1" using rpos rle by (rule ilog2_le)
      moreover have "1 * pow2 ?q \<le> of_int n * pow2 ?q"
        using npos pow2_pos [of ?q] by (intro mult_right_mono) simp_all
      then have "pow2 ?q \<le> r" by (simp add: r)
      then have "?q \<le> E + 1" unfolding True by (simp add: pow2_le_iff)
      ultimately have "quantum r \<le> E + 1" using rpos qE by (simp add: quantum_def)
      with True show ?thesis by simp
    next
      case False
      with rle have "r < pow2 (E + 1)" by simp
      with rpos have "ilog2 r < E + 1" by (rule ilog2_less)
      then have "quantum r \<le> ?q" using rpos assms by (simp add: quantum_def E_def)
      then show ?thesis ..
    qed
    then have "round53 r = r"
      using round53_multiple [OF r] round53_multiple [of r 1 "E + 1"] by blast
    then show ?thesis by (simp add: r_def)
  qed
qed

lemma round53_idem: "round53 (round53 x) = round53 x"
proof -
  consider "0 < x" | "x = 0" | "x < 0" by linarith
  then show ?thesis
  proof cases
    case 1
    then show ?thesis by (rule round53_idem_pos)
  next
    case 2
    then show ?thesis by (simp add: round53_def)
  next
    case 3
    then have "round53 (round53 (- x)) = round53 (- x)" by (intro round53_idem_pos) simp
    then show ?thesis by (simp add: round53_minus)
  qed
qed

text \<open>
  So the integer \<open>0\<close> of a component adds nothing: the channel of the component \<open>0\<close>
  is \<open>m * 255\<close> rounded once, as \<open>(0 + m) * 255\<close> is in Python.
\<close>

lemma channel_real_zero: "channel_real 0 (offset l c) = round53 (offset l c * 255)"
  by (simp add: channel_real_def offset_def round53_idem)

section \<open>Every float of the conversion is finite\<close>

lemmas round53_eval = round53_def quantum_def ilog2_def rne_def pow2_def Let_def compute_bitlen

lemma round53_consts:
  "round53 0 = 0" "round53 1 = 1" "round53 2 = 2" "round53 (- 1) = - 1" "round53 (1 / 2) = 1 / 2"
  "round53 6 = 6" "round53 65 = 65" "round53 84 = 84" "round53 100 = 100" "round53 255 = 255"
  "round53 510 = 510" "round53 1024 = 1024" "round53 (- 1024) = - 1024"
  by (simp_all add: round53_eval)

lemma round53_between:
  assumes "a \<le> x" "x \<le> b" "round53 a = a" "round53 b = b"
  shows "a \<le> round53 x" "round53 x \<le> b"
  using round53_mono [OF assms(1)] round53_mono [OF assms(2)] assms(3,4) by simp_all

lemma fl_Finite:
  assumes "- 1024 \<le> x" "x \<le> 1024"
  shows "fl x = Finite (round53 x)"
proof -
  have "- 1024 \<le> round53 x" "round53 x \<le> 1024"
    using round53_between [OF assms] by (simp_all add: round53_consts)
  then have "\<bar>round53 x\<bar> < 2 ^ 1024" by simp
  then show ?thesis by (simp add: fl_def)
qed

lemma float_of_int_consts: "float_of_int 100 = Inr 100" "float_of_int 2 = Inr 2"
  using fl_Finite [of 100] fl_Finite [of 2] by (simp_all add: float_of_int_def round53_consts)

lemma chroma_steps:
  assumes l: "55 \<le> l" "l \<le> 69" and s: "65 \<le> s" "s \<le> 84"
  defines "T \<equiv> round53 (of_int (2 * l) / of_int 100)"
  defines "U \<equiv> round53 (T - 1)"
  defines "A \<equiv> round53 (1 - \<bar>U\<bar>)"
  defines "SF \<equiv> round53 (of_int s)"
  defines "P \<equiv> round53 (A * SF)"
  shows "1 \<le> T" "T \<le> 2" "0 \<le> U" "U \<le> 1" "0 \<le> A" "A \<le> 1" "65 \<le> SF" "SF \<le> 84"
    "0 \<le> P" "P \<le> 84" "0 \<le> chroma l s" "chroma l s \<le> 1" "chroma l s = round53 (P / 100)"
proof -
  have "(1::real) \<le> of_int (2 * l) / of_int 100" "of_int (2 * l) / of_int 100 \<le> (2::real)"
    using l by simp_all
  from round53_between [OF this] show T: "1 \<le> T" "T \<le> 2"
    by (simp_all add: T_def round53_consts)
  then have "0 \<le> T - 1" "T - 1 \<le> 1" by simp_all
  from round53_between [OF this] show U: "0 \<le> U" "U \<le> 1"
    by (simp_all add: U_def round53_consts)
  then have "0 \<le> 1 - \<bar>U\<bar>" "1 - \<bar>U\<bar> \<le> 1" by simp_all
  from round53_between [OF this] show A: "0 \<le> A" "A \<le> 1"
    by (simp_all add: A_def round53_consts)
  have "(65::real) \<le> of_int s" "of_int s \<le> (84::real)" using s by simp_all
  from round53_between [OF this] show SF: "65 \<le> SF" "SF \<le> 84"
    by (simp_all add: SF_def round53_consts)
  have "0 \<le> A * SF" using A SF by simp
  moreover have "A * SF \<le> 1 * 84" using A SF by (intro mult_mono) simp_all
  ultimately have "0 \<le> A * SF" "A * SF \<le> 84" by simp_all
  from round53_between [OF this] show P: "0 \<le> P" "P \<le> 84"
    by (simp_all add: P_def round53_consts)
  show C: "chroma l s = round53 (P / 100)"
    by (simp add: chroma_def P_def A_def U_def T_def SF_def)
  have "0 \<le> P / 100" "P / 100 \<le> 1" using P by simp_all
  from round53_between [OF this] show "0 \<le> chroma l s" "chroma l s \<le> 1"
    by (simp_all add: C round53_consts)
qed

lemma second_component_steps:
  assumes h: "0 \<le> h" "h \<le> 359" and c: "0 \<le> c" "c \<le> 1"
  defines "Q \<equiv> round53 (of_int h / of_int 60)"
  defines "Q2 \<equiv> Q - 2 * of_int (trunc (Q / 2))"
  defines "W \<equiv> round53 (Q2 - 1)"
  defines "V \<equiv> round53 (1 - \<bar>W\<bar>)"
  shows "0 \<le> Q" "Q \<le> 6" "0 \<le> Q2" "Q2 < 2" "- 1 \<le> W" "W \<le> 1" "0 \<le> V" "V \<le> 1"
    "second_component c h = round53 (c * V)" "0 \<le> second_component c h"
    "second_component c h \<le> round53 c"
proof -
  have "(0::real) \<le> of_int h / of_int 60" "of_int h / of_int 60 \<le> (6::real)"
    using h by simp_all
  from round53_between [OF this] show Q: "0 \<le> Q" "Q \<le> 6"
    by (simp_all add: Q_def round53_consts)
  have tr: "trunc (Q / 2) = \<lfloor>Q / 2\<rfloor>" using Q by (simp add: trunc_def)
  have "of_int \<lfloor>Q / 2\<rfloor> \<le> Q / 2" "Q / 2 < of_int \<lfloor>Q / 2\<rfloor> + 1" by linarith+
  then show Q2: "0 \<le> Q2" "Q2 < 2" unfolding Q2_def tr by linarith+
  then have "- 1 \<le> Q2 - 1" "Q2 - 1 \<le> 1" by simp_all
  from round53_between [OF this] show W: "- 1 \<le> W" "W \<le> 1"
    by (simp_all add: W_def round53_consts)
  then have "0 \<le> 1 - \<bar>W\<bar>" "1 - \<bar>W\<bar> \<le> 1" by simp_all
  from round53_between [OF this] show V: "0 \<le> V" "V \<le> 1"
    by (simp_all add: V_def round53_consts)
  show X: "second_component c h = round53 (c * V)"
    by (simp add: second_component_def Let_def V_def W_def Q2_def Q_def)
  have "0 \<le> c * V" using c V by simp
  then show "0 \<le> second_component c h" unfolding X by (rule round53_nonneg)
  have "c * V \<le> c * 1" using c V by (intro mult_left_mono) simp_all
  then show "second_component c h \<le> round53 c" unfolding X using round53_mono by simp
qed

lemma offset_steps:
  assumes l: "55 \<le> l" "l \<le> 69" and c: "0 \<le> c" "c \<le> 1"
  defines "LF \<equiv> round53 (of_int l / of_int 100)"
  defines "C2 \<equiv> round53 (c / 2)"
  shows "1 / 2 \<le> LF" "LF \<le> 1" "0 \<le> C2" "C2 \<le> 1 / 2" "0 \<le> offset l c" "offset l c \<le> 1"
    "offset l c = round53 (LF - C2)"
proof -
  have "(1 / 2::real) \<le> of_int l / of_int 100" "of_int l / of_int 100 \<le> (1::real)"
    using l by simp_all
  from round53_between [OF this] show LF: "1 / 2 \<le> LF" "LF \<le> 1"
    by (simp_all add: LF_def round53_consts)
  have "0 \<le> c / 2" "c / 2 \<le> 1 / 2" using c by simp_all
  from round53_between [OF this] show C2: "0 \<le> C2" "C2 \<le> 1 / 2"
    by (simp_all add: C2_def round53_consts)
  show M: "offset l c = round53 (LF - C2)" by (simp add: offset_def LF_def C2_def)
  have "0 \<le> LF - C2" "LF - C2 \<le> 1" using LF C2 by simp_all
  from round53_between [OF this] show "0 \<le> offset l c" "offset l c \<le> 1"
    by (simp_all add: M round53_consts)
qed

lemma int_truediv_Finite:
  assumes "b \<noteq> 0" "- 1024 \<le> (of_int a / of_int b :: real)" "(of_int a / of_int b :: real) \<le> 1024"
  shows "int_truediv a b = Inr (Finite (round53 (of_int a / of_int b)))"
  using assms by (simp add: int_truediv_def fl_Finite)

lemma float_of_int_Finite:
  assumes "- 1024 \<le> n" "n \<le> 1024"
  shows "float_of_int n = Inr (round53 (of_int n))"
proof -
  have "fl (of_int n) = Finite (round53 (of_int n))"
    using assms by (intro fl_Finite) simp_all
  then show ?thesis by (simp add: float_of_int_def)
qed

lemma float_sub_Finite:
  "- 1024 \<le> x - y \<Longrightarrow> x - y \<le> 1024 \<Longrightarrow>
   float_sub (Finite x) (Finite y) = Finite (round53 (x - y))"
  by (simp add: float_sub_def fl_Finite)

lemma float_add_Finite:
  "- 1024 \<le> x + y \<Longrightarrow> x + y \<le> 1024 \<Longrightarrow>
   float_add (Finite x) (Finite y) = Finite (round53 (x + y))"
  by (simp add: float_add_def fl_Finite)

lemma float_mul_Finite:
  "- 1024 \<le> x * y \<Longrightarrow> x * y \<le> 1024 \<Longrightarrow>
   float_mul (Finite x) (Finite y) = Finite (round53 (x * y))"
  by (simp add: float_mul_def fl_Finite)

lemma float_truediv_100:
  "- 1024 \<le> x \<Longrightarrow> x \<le> 1024 \<Longrightarrow>
   float_truediv_int (Finite x) 100 = Inr (Finite (round53 (x / 100)))"
  by (simp add: float_truediv_int_def float_of_int_consts bind_result_def fl_Finite)

lemma float_truediv_2:
  "- 1024 \<le> x \<Longrightarrow> x \<le> 1024 \<Longrightarrow>
   float_truediv_int (Finite x) 2 = Inr (Finite (round53 (x / 2)))"
  by (simp add: float_truediv_int_def float_of_int_consts bind_result_def fl_Finite)

lemma float_mod_2:
  assumes "0 \<le> q"
  shows "float_mod_int (Finite q) 2 = Inr (Finite (q - 2 * of_int (trunc (q / 2))))"
proof -
  have tr: "trunc (q / 2) = \<lfloor>q / 2\<rfloor>" using assms by (simp add: trunc_def)
  have "of_int \<lfloor>q / 2\<rfloor> \<le> q / 2" by linarith
  then have "\<not> q - 2 * of_int (trunc (q / 2)) < 0" unfolding tr by linarith
  then show ?thesis
    by (simp add: float_mod_int_def float_of_int_consts bind_result_def Let_def)
qed

lemma hsl_components_finite:
  assumes h: "0 \<le> h" "h \<le> 359" and s: "65 \<le> s" "s \<le> 84" and l: "55 \<le> l" "l \<le> 69"
  defines "c \<equiv> chroma l s"
  defines "x \<equiv> second_component c h"
  defines "m \<equiv> offset l c"
  shows "hsl_components h s l =
     Inr (if h < 60 then (Finite c, Finite x, Finite 0, Finite m)
          else if h < 120 then (Finite x, Finite c, Finite 0, Finite m)
          else if h < 180 then (Finite 0, Finite c, Finite x, Finite m)
          else if h < 240 then (Finite 0, Finite x, Finite c, Finite m)
          else if h < 300 then (Finite x, Finite 0, Finite c, Finite m)
          else (Finite c, Finite 0, Finite x, Finite m))"
proof -
  note cs = chroma_steps [OF l s]
  have c01: "0 \<le> c" "c \<le> 1" using cs by (simp_all add: c_def)
  note xs = second_component_steps [OF h c01]
  note ms = offset_steps [OF l c01]
  define T where "T = round53 (of_int (2 * l) / of_int 100)"
  define U where "U = round53 (T - 1)"
  define A where "A = round53 (1 - \<bar>U\<bar>)"
  define SF where "SF = round53 (of_int s)"
  define P where "P = round53 (A * SF)"
  define Q where "Q = round53 (of_int h / of_int 60)"
  define Q2 where "Q2 = Q - 2 * of_int (trunc (Q / 2))"
  define W where "W = round53 (Q2 - 1)"
  define V where "V = round53 (1 - \<bar>W\<bar>)"
  define LF where "LF = round53 (of_int l / of_int 100)"
  define C2 where "C2 = round53 (c / 2)"
  have T: "1 \<le> T" "T \<le> 2" using cs(1,2) by (simp_all add: T_def)
  have U: "0 \<le> U" "U \<le> 1" using cs(3,4) by (simp_all add: U_def T_def)
  have A: "0 \<le> A" "A \<le> 1" using cs(5,6) by (simp_all add: A_def U_def T_def)
  have SF: "65 \<le> SF" "SF \<le> 84" using cs(7,8) by (simp_all add: SF_def)
  have P: "0 \<le> P" "P \<le> 84" using cs(9,10) by (simp_all add: P_def A_def U_def T_def SF_def)
  have c: "c = round53 (P / 100)" using cs(13) by (simp add: c_def P_def A_def U_def T_def SF_def)
  have Q: "0 \<le> Q" "Q \<le> 6" using xs(1,2) by (simp_all add: Q_def)
  have Q2: "0 \<le> Q2" "Q2 < 2" using xs(3,4) by (simp_all add: Q2_def Q_def)
  have W: "- 1 \<le> W" "W \<le> 1" using xs(5,6) by (simp_all add: W_def Q2_def Q_def)
  have V: "0 \<le> V" "V \<le> 1" using xs(7,8) by (simp_all add: V_def W_def Q2_def Q_def)
  have x: "x = round53 (c * V)" using xs(9) by (simp add: x_def V_def W_def Q2_def Q_def)
  have LF: "1 / 2 \<le> LF" "LF \<le> 1" using ms(1,2) by (simp_all add: LF_def)
  have C2: "0 \<le> C2" "C2 \<le> 1 / 2" using ms(3,4) by (simp_all add: C2_def)
  have m: "m = round53 (LF - C2)" using ms(7) by (simp add: m_def LF_def C2_def)
  have 1: "int_truediv (2 * l) 100 = Inr (Finite T)"
    unfolding T_def using l by (intro int_truediv_Finite) simp_all
  have 2: "float_of_int s = Inr SF"
    unfolding SF_def using s by (intro float_of_int_Finite) simp_all
  have 3: "float_sub (Finite T) (Finite 1) = Finite U"
    unfolding U_def using T by (intro float_sub_Finite) simp_all
  have 4: "float_sub (Finite 1) (Finite \<bar>U\<bar>) = Finite A"
    unfolding A_def using U by (intro float_sub_Finite) simp_all
  have "0 \<le> A * SF" using A SF by simp
  moreover have "A * SF \<le> 1 * 84" using A SF by (intro mult_mono) simp_all
  ultimately have 5: "float_mul (Finite A) (Finite SF) = Finite P"
    unfolding P_def by (intro float_mul_Finite) simp_all
  have 6: "float_truediv_int (Finite P) 100 = Inr (Finite c)"
    unfolding c using P by (intro float_truediv_100) simp_all
  have 7: "int_truediv h 60 = Inr (Finite Q)"
    unfolding Q_def using h by (intro int_truediv_Finite) simp_all
  have 8: "float_mod_int (Finite Q) 2 = Inr (Finite Q2)"
    unfolding Q2_def using Q(1) by (rule float_mod_2)
  have 9: "float_sub (Finite Q2) (Finite 1) = Finite W"
    unfolding W_def using Q2 by (intro float_sub_Finite) simp_all
  have 10: "float_sub (Finite 1) (Finite \<bar>W\<bar>) = Finite V"
    unfolding V_def using W by (intro float_sub_Finite) simp_all
  have "0 \<le> c * V" using c01 V by simp
  moreover have "c * V \<le> 1 * 1" using c01 V by (intro mult_mono) simp_all
  ultimately have 11: "float_mul (Finite c) (Finite V) = Finite x"
    unfolding x by (intro float_mul_Finite) simp_all
  have 12: "int_truediv l 100 = Inr (Finite LF)"
    unfolding LF_def using l by (intro int_truediv_Finite) simp_all
  have 13: "float_truediv_int (Finite c) 2 = Inr (Finite C2)"
    unfolding C2_def using c01 by (intro float_truediv_2) simp_all
  have 14: "float_sub (Finite LF) (Finite C2) = Finite m"
    unfolding m using LF C2 by (intro float_sub_Finite) simp_all
  show ?thesis
    by (simp add: hsl_components_def bind_result_def float_abs_def Let_def
        1 2 3 4 5 6 7 8 9 10 11 12 13 14)
qed

lemma chroma_mono:
  assumes "55 \<le> l" "l \<le> 69" "s \<le> s'"
  shows "chroma l s \<le> chroma l s'"
proof -
  define A where "A = round53 (1 - \<bar>round53 (round53 (of_int (2 * l) / of_int 100) - 1)\<bar>)"
  have "0 \<le> A" using chroma_steps(5) [OF assms(1,2), of 65] by (simp add: A_def)
  moreover have "round53 (of_int s) \<le> round53 (of_int s')"
    using assms(3) by (intro round53_mono) simp
  ultimately have "A * round53 (of_int s) \<le> A * round53 (of_int s')"
    by (rule mult_left_mono [rotated])
  then have "round53 (A * round53 (of_int s)) / 100 \<le> round53 (A * round53 (of_int s')) / 100"
    using round53_mono by (simp add: divide_right_mono)
  then show ?thesis unfolding chroma_def A_def [symmetric] by (rule round53_mono)
qed

lemma offset_antimono: "c \<le> c' \<Longrightarrow> offset l c' \<le> offset l c"
proof -
  assume "c \<le> c'"
  then have "round53 (c / 2) \<le> round53 (c' / 2)" by (intro round53_mono) simp
  then show ?thesis unfolding offset_def by (intro round53_mono) simp
qed

lemma channel_real_mono: "v \<le> v' \<Longrightarrow> m \<le> m' \<Longrightarrow> channel_real v m \<le> channel_real v' m'"
proof -
  assume "v \<le> v'" "m \<le> m'"
  then have "round53 (v + m) \<le> round53 (v' + m')" by (intro round53_mono) simp
  then show ?thesis unfolding channel_real_def by (intro round53_mono) simp
qed

lemma top_values:
  "top_value 55 65 74 < 256" "top_value 55 75 84 < 256"
  "top_value 56 65 74 < 256" "top_value 56 75 84 < 256"
  "top_value 57 65 74 < 256" "top_value 57 75 84 < 256"
  "top_value 58 65 74 < 256" "top_value 58 75 84 < 256"
  "top_value 59 65 74 < 256" "top_value 59 75 84 < 256"
  "top_value 60 65 74 < 256" "top_value 60 75 84 < 256"
  "top_value 61 65 74 < 256" "top_value 61 75 84 < 256"
  "top_value 62 65 74 < 256" "top_value 62 75 84 < 256"
  "top_value 63 65 74 < 256" "top_value 63 75 84 < 256"
  "top_value 64 65 74 < 256" "top_value 64 75 84 < 256"
  "top_value 65 65 74 < 256" "top_value 65 75 84 < 256"
  "top_value 66 65 74 < 256" "top_value 66 75 84 < 256"
  "top_value 67 65 74 < 256" "top_value 67 75 84 < 256"
  "top_value 68 65 74 < 256" "top_value 68 75 84 < 256"
  "top_value 69 65 74 < 256" "top_value 69 75 84 < 256"
  by (simp_all add: top_value_def channel_real_def offset_def chroma_def round53_eval)

lemma top_value_less_256:
  assumes "55 \<le> l" "l \<le> 69"
  shows "top_value l 65 74 < 256" "top_value l 75 84 < 256"
proof -
  from assms have "l = 55 \<or> l = 56 \<or> l = 57 \<or> l = 58 \<or> l = 59 \<or> l = 60 \<or> l = 61 \<or> l = 62 \<or> l = 63 \<or> l = 64 \<or> l = 65 \<or> l = 66 \<or> l = 67 \<or> l = 68 \<or> l = 69"
    by presburger
  then have "top_value l 65 74 < 256 \<and> top_value l 75 84 < 256"
    by (elim disjE) (simp_all add: top_values)
  then show "top_value l 65 74 < 256" "top_value l 75 84 < 256" by simp_all
qed

lemma channel_bounds:
  assumes h: "0 \<le> h" "h \<le> 359" and s: "65 \<le> s" "s \<le> 84" and l: "55 \<le> l" "l \<le> 69"
    and v: "v = chroma l s \<or> v = second_component (chroma l s) h \<or> v = 0"
  defines "m \<equiv> offset l (chroma l s)"
  shows "channel_value (Finite v) (Finite m) = Finite (channel_real v m)"
    and "0 \<le> channel_real v m" and "channel_real v m < 256"
proof -
  let ?c = "chroma l s"
  note cs = chroma_steps [OF l s]
  have c01: "0 \<le> ?c" "?c \<le> 1" using cs by simp_all
  note xs = second_component_steps [OF h c01]
  note ms = offset_steps [OF l c01]
  have x1: "second_component ?c h \<le> 1"
    using xs(11) round53_mono [OF c01(2)] by (simp add: round53_consts)
  have v01: "0 \<le> v" "v \<le> 1" using v c01 xs(10) x1 by auto
  have m01: "0 \<le> m" "m \<le> 1" using ms(5,6) by (simp_all add: m_def)
  have "0 \<le> v + m" "v + m \<le> 2" using v01 m01 by simp_all
  from round53_between [OF this] have sum: "0 \<le> round53 (v + m)" "round53 (v + m) \<le> 2"
    by (simp_all add: round53_consts)
  have add: "float_add (Finite v) (Finite m) = Finite (round53 (v + m))"
    using v01 m01 by (intro float_add_Finite) simp_all
  have "float_mul (Finite (round53 (v + m))) (Finite 255) = Finite (channel_real v m)"
    unfolding channel_real_def using sum by (intro float_mul_Finite) simp_all
  with add show "channel_value (Finite v) (Finite m) = Finite (channel_real v m)"
    by (simp add: channel_value_def)
  have "0 \<le> round53 (v + m) * 255" using sum by simp
  then show "0 \<le> channel_real v m" unfolding channel_real_def by (rule round53_nonneg)
  define slo :: int where "slo = (if s \<le> 74 then 65 else 75)"
  define shi :: int where "shi = (if s \<le> 74 then 74 else 84)"
  have range: "slo \<le> s" "s \<le> shi" "65 \<le> shi" "shi \<le> 84"
    using s by (simp_all add: slo_def shi_def)
  have top: "top_value l slo shi < 256"
    using top_value_less_256 [OF l] by (simp add: slo_def shi_def)
  have hi: "?c \<le> chroma l shi" using l range(2) by (rule chroma_mono)
  have lo: "chroma l slo \<le> ?c" using l range(1) by (rule chroma_mono)
  have "second_component ?c h \<le> round53 (chroma l shi)"
    using xs(11) round53_mono [OF hi] by simp
  moreover have "0 \<le> chroma l shi" using chroma_steps(11) [OF l range(3,4)] .
  ultimately have "v \<le> max (chroma l shi) (round53 (chroma l shi))"
    using v hi by auto
  moreover have "m \<le> offset l (chroma l slo)"
    unfolding m_def using lo by (rule offset_antimono)
  ultimately have "channel_real v m \<le> top_value l slo shi"
    unfolding top_value_def by (rule channel_real_mono)
  with top show "channel_real v m < 256" by simp
qed

section \<open>The channels and the hexadecimal string\<close>

lemma hex_digit_0: "hex_digit 0 = CHR ''0''"
  by (simp add: hex_digit_def)

lemma format_02X_byte:
  assumes "0 \<le> n" "n \<le> 255"
  shows "format_02X n = [hex_digit (nat n div 16), hex_digit (nat n mod 16)]"
proof -
  define k where "k = nat n"
  have k: "k < 256" using assms by (simp add: k_def)
  have u: "hex_upper k = (if k < 16 then [hex_digit k]
                          else [hex_digit (k div 16), hex_digit (k mod 16)])"
  proof (cases "k < 16")
    case True
    then show ?thesis by (subst hex_upper.simps) simp
  next
    case False
    have "k div 16 < 16" using k by simp
    then have "hex_upper (k div 16) = [hex_digit (k div 16)]"
      by (subst hex_upper.simps) simp
    then show ?thesis using False by (subst hex_upper.simps) simp
  qed
  show ?thesis
    using assms(1) unfolding format_02X_def k_def [symmetric] u
    by (simp add: hex_digit_0 del: hex_upper.simps)
qed

lemma hex_digit_upper: "d < 16 \<Longrightarrow> hex_digit d \<in> set ''0123456789ABCDEF''"
  unfolding hex_digit_def by (rule nth_mem) simp

lemma trunc_nonneg: "0 \<le> x \<Longrightarrow> trunc x = \<lfloor>x\<rfloor>"
  by (simp add: trunc_def)

lemma hsl_to_rgb_finite:
  assumes h: "0 \<le> h" "h \<le> 359" and s: "65 \<le> s" "s \<le> 84" and l: "55 \<le> l" "l \<le> 69"
  shows "\<exists>r' g' b' m.
           hsl_components h s l = Inr (Finite r', Finite g', Finite b', Finite m) \<and>
           channel_value (Finite r') (Finite m) = Finite (channel_real r' m) \<and>
           channel_value (Finite g') (Finite m) = Finite (channel_real g' m) \<and>
           channel_value (Finite b') (Finite m) = Finite (channel_real b' m) \<and>
           0 \<le> channel_real r' m \<and> channel_real r' m < 256 \<and>
           0 \<le> channel_real g' m \<and> channel_real g' m < 256 \<and>
           0 \<le> channel_real b' m \<and> channel_real b' m < 256 \<and>
           hsl_to_rgb h s l =
             Inr (\<lfloor>channel_real r' m\<rfloor>, \<lfloor>channel_real g' m\<rfloor>, \<lfloor>channel_real b' m\<rfloor>)"
proof -
  define c where "c = chroma l s"
  define x where "x = second_component c h"
  define m where "m = offset l c"
  note cb = channel_bounds [OF h s l, of c, folded m_def c_def]
  note xb = channel_bounds [OF h s l, of x, folded m_def c_def]
  note zb = channel_bounds [OF h s l, of 0, folded m_def c_def]
  have C: "channel_value (Finite c) (Finite m) = Finite (channel_real c m)"
    "0 \<le> channel_real c m" "channel_real c m < 256"
    using cb by (simp_all add: c_def m_def)
  have X: "channel_value (Finite x) (Finite m) = Finite (channel_real x m)"
    "0 \<le> channel_real x m" "channel_real x m < 256"
    using xb by (simp_all add: x_def c_def m_def)
  have Z: "channel_value (Finite 0) (Finite m) = Finite (channel_real 0 m)"
    "0 \<le> channel_real 0 m" "channel_real 0 m < 256"
    using zb by (simp_all add: c_def m_def)
  note comps = hsl_components_finite [OF h s l, folded c_def, folded x_def m_def]
  consider "h < 60" | "60 \<le> h" "h < 120" | "120 \<le> h" "h < 180" | "180 \<le> h" "h < 240"
    | "240 \<le> h" "h < 300" | "300 \<le> h" by linarith
  then show ?thesis
  proof cases
    case 1
    then have "hsl_components h s l = Inr (Finite c, Finite x, Finite 0, Finite m)"
      using comps by simp
    then show ?thesis using C X Z
      by (intro exI [of _ c] exI [of _ x] exI [of _ 0] exI [of _ m])
         (simp add: hsl_to_rgb_def bind_result_def py_int_def trunc_nonneg)
  next
    case 2
    then have "hsl_components h s l = Inr (Finite x, Finite c, Finite 0, Finite m)"
      using comps by simp
    then show ?thesis using C X Z
      by (intro exI [of _ x] exI [of _ c] exI [of _ 0] exI [of _ m])
         (simp add: hsl_to_rgb_def bind_result_def py_int_def trunc_nonneg)
  next
    case 3
    then have "hsl_components h s l = Inr (Finite 0, Finite c, Finite x, Finite m)"
      using comps by simp
    then show ?thesis using C X Z
      by (intro exI [of _ 0] exI [of _ c] exI [of _ x] exI [of _ m])
         (simp add: hsl_to_rgb_def bind_result_def py_int_def trunc_nonneg)
  next
    case 4
    then have "hsl_components h s l = Inr (Finite 0, Finite x, Finite c, Finite m)"
      using comps by simp
    then show ?thesis using C X Z
      by (intro exI [of _ 0] exI [of _ x] exI [of _ c] exI [of _ m])
         (simp add: hsl_to_rgb_def bind_result_def py_int_def trunc_nonneg)
  next
    case 5
    then have "hsl_components h s l = Inr (Finite x, Finite 0, Finite c, Finite m)"
      using comps by simp
    then show ?thesis using C X Z
      by (intro exI [of _ x] exI [of _ 0] exI [of _ c] exI [of _ m])
         (simp add: hsl_to_rgb_def bind_result_def py_int_def trunc_nonneg)
  next
    case 6
    then have "hsl_components h s l = Inr (Finite c, Finite 0, Finite x, Finite m)"
      using comps by simp
    then show ?thesis using C X Z
      by (intro exI [of _ c] exI [of _ 0] exI [of _ x] exI [of _ m])
         (simp add: hsl_to_rgb_def bind_result_def py_int_def trunc_nonneg)
  qed
qed

section \<open>The colour of every identifier\<close>

lemma hue_range: "0 \<le> hue k" "hue k \<le> 359"
  using pos_mod_bound [of 360 k] pos_mod_sign [of 360 k] by (simp_all add: hue_def)

lemma saturation_range: "65 \<le> saturation k" "saturation k \<le> 84"
  using pos_mod_bound [of 20 "\<bar>drop_bit 8 k\<bar>"] pos_mod_sign [of 20 "\<bar>drop_bit 8 k\<bar>"]
  by (simp_all add: saturation_def)

lemma lightness_range: "55 \<le> lightness k" "lightness k \<le> 69"
  using pos_mod_bound [of 15 "\<bar>drop_bit 16 k\<bar>"] pos_mod_sign [of 15 "\<bar>drop_bit 16 k\<bar>"]
  by (simp_all add: lightness_def)

lemmas hsl_of_hash =
  hsl_to_rgb_finite [OF hue_range saturation_range lightness_range]

lemma generate_color_for_product_unfold:
  "generate_color_for_product str_id =
     bind_result (hsl_to_rgb (hue (hash_of str_id)) (saturation (hash_of str_id))
                    (lightness (hash_of str_id)))
       (\<lambda>(r, g, b). Inr (str (CHR ''#'' # format_02X r @ format_02X g @ format_02X b)))"
  by (simp add: generate_color_for_product_def Let_def)

text \<open>
  C2: for the identifier \<open>1\<close> the hash is 49, the hue 49, the saturation 65 and the
  lightness 55; the channels are 214, 187 and 65, and the colour is \<open>#D6BB41\<close>.
\<close>

theorem color_of_identifier_1:
  "hash_of (str ''1'') = 49 \<and> hue 49 = 49 \<and> saturation 49 = 65 \<and> lightness 49 = 55
   \<and> hsl_to_rgb 49 65 55 = Inr (214, 187, 65)
   \<and> generate_color_for_product (str ''1'') = Inr (str ''#D6BB41'')"
  using color_of_1 hsl_49
  by (simp add: hash_of_def str_def hue_def saturation_def lightness_def drop_bit_eq_div)

text \<open>
  C3: for every identifier the hue is in 0..359, the saturation in 65..84 and the
  lightness in 55..69; the conversion raises nothing and its three channels are integers
  in 0..255; the result is \<open>#\<close> followed by two upper-case hexadecimal digits for each
  channel, seven characters in all.
\<close>

theorem color_ranges_and_format:
  "0 \<le> hue (hash_of str_id) \<and> hue (hash_of str_id) \<le> 359
   \<and> 65 \<le> saturation (hash_of str_id) \<and> saturation (hash_of str_id) \<le> 84
   \<and> 55 \<le> lightness (hash_of str_id) \<and> lightness (hash_of str_id) \<le> 69
   \<and> (\<exists>r g b.
         hsl_to_rgb (hue (hash_of str_id)) (saturation (hash_of str_id))
           (lightness (hash_of str_id)) = Inr (r, g, b)
         \<and> 0 \<le> r \<and> r \<le> 255 \<and> 0 \<le> g \<and> g \<le> 255 \<and> 0 \<le> b \<and> b \<le> 255
         \<and> generate_color_for_product str_id =
             Inr (str [CHR ''#'',
                       hex_digit (nat r div 16), hex_digit (nat r mod 16),
                       hex_digit (nat g div 16), hex_digit (nat g mod 16),
                       hex_digit (nat b div 16), hex_digit (nat b mod 16)])
         \<and> set [hex_digit (nat r div 16), hex_digit (nat r mod 16),
                 hex_digit (nat g div 16), hex_digit (nat g mod 16),
                 hex_digit (nat b div 16), hex_digit (nat b mod 16)]
               \<subseteq> set ''0123456789ABCDEF'')"
proof -
  let ?k = "hash_of str_id"
  from hsl_of_hash [of ?k ?k ?k] obtain r' g' b' m where
    rgb: "hsl_to_rgb (hue ?k) (saturation ?k) (lightness ?k) =
             Inr (\<lfloor>channel_real r' m\<rfloor>, \<lfloor>channel_real g' m\<rfloor>, \<lfloor>channel_real b' m\<rfloor>)"
    and r: "0 \<le> channel_real r' m" "channel_real r' m < 256"
    and g: "0 \<le> channel_real g' m" "channel_real g' m < 256"
    and b: "0 \<le> channel_real b' m" "channel_real b' m < 256"
    by blast
  define r where "r = \<lfloor>channel_real r' m\<rfloor>"
  define g where "g = \<lfloor>channel_real g' m\<rfloor>"
  define b where "b = \<lfloor>channel_real b' m\<rfloor>"
  have rng: "0 \<le> r" "r \<le> 255" "0 \<le> g" "g \<le> 255" "0 \<le> b" "b \<le> 255"
    using r g b unfolding r_def g_def b_def by (simp_all add: floor_less_iff le_floor_iff) 
  have digits: "nat r div 16 < 16" "nat r mod 16 < 16" "nat g div 16 < 16" "nat g mod 16 < 16"
    "nat b div 16 < 16" "nat b mod 16 < 16"
    using rng by simp_all
  have "generate_color_for_product str_id =
      Inr (str (CHR ''#'' # format_02X r @ format_02X g @ format_02X b))"
    by (simp add: generate_color_for_product_unfold rgb bind_result_def r_def g_def b_def)
  then have gen: "generate_color_for_product str_id =
             Inr (str [CHR ''#'',
                       hex_digit (nat r div 16), hex_digit (nat r mod 16),
                       hex_digit (nat g div 16), hex_digit (nat g mod 16),
                       hex_digit (nat b div 16), hex_digit (nat b mod 16)])"
    using rng by (simp add: format_02X_byte)
  have "set [hex_digit (nat r div 16), hex_digit (nat r mod 16),
                 hex_digit (nat g div 16), hex_digit (nat g mod 16),
                 hex_digit (nat b div 16), hex_digit (nat b mod 16)]
               \<subseteq> set ''0123456789ABCDEF''"
    using digits [THEN hex_digit_upper] by simp
  with rgb rng gen hue_range [of ?k] saturation_range [of ?k] lightness_range [of ?k]
  show ?thesis unfolding r_def g_def b_def by blast
qed

lemma red_of_1:
  "trunc (channel_real (chroma 55 65) (offset 55 (chroma 55 65))) = 214"
  "round (channel_real (chroma 55 65) (offset 55 (chroma 55 65))) = 215"
  by (simp_all add: channel_real_def offset_def chroma_def round53_eval trunc_def round_def)

text \<open>
  C4: for every identifier each channel is the integer part of the float
  \<open>(component + m) * 255\<close>: that float \<open>v\<close> is finite and not negative, and the channel
  \<open>n\<close> satisfies \<open>n \<le> v < n + 1\<close>. It is not the nearest integer: for the identifier
  \<open>1\<close> the red channel is 214 where rounding would give 215.
\<close>

theorem channels_truncate:
  "(\<exists>r' g' b' m vr vg vb r g b.
      hsl_components (hue (hash_of str_id)) (saturation (hash_of str_id))
        (lightness (hash_of str_id)) = Inr (r', g', b', m)
      \<and> channel_value r' m = Finite vr \<and> channel_value g' m = Finite vg
      \<and> channel_value b' m = Finite vb
      \<and> hsl_to_rgb (hue (hash_of str_id)) (saturation (hash_of str_id))
           (lightness (hash_of str_id)) = Inr (r, g, b)
      \<and> 0 \<le> vr \<and> of_int r \<le> vr \<and> vr < of_int r + 1
      \<and> 0 \<le> vg \<and> of_int g \<le> vg \<and> vg < of_int g + 1
      \<and> 0 \<le> vb \<and> of_int b \<le> vb \<and> vb < of_int b + 1)
   \<and> (\<exists>g' b' m vr.
        hsl_components 49 65 55 = Inr (Finite (chroma 55 65), g', b', m)
        \<and> channel_value (Finite (chroma 55 65)) m = Finite vr
        \<and> trunc vr = 214 \<and> round vr = 215
        \<and> hsl_to_rgb 49 65 55 = Inr (214, 187, 65))"
proof
  let ?k = "hash_of str_id"
  from hsl_of_hash [of ?k ?k ?k] obtain r' g' b' m where
    "hsl_components (hue ?k) (saturation ?k) (lightness ?k)
       = Inr (Finite r', Finite g', Finite b', Finite m)"
    "channel_value (Finite r') (Finite m) = Finite (channel_real r' m)"
    "channel_value (Finite g') (Finite m) = Finite (channel_real g' m)"
    "channel_value (Finite b') (Finite m) = Finite (channel_real b' m)"
    "hsl_to_rgb (hue ?k) (saturation ?k) (lightness ?k) =
             Inr (\<lfloor>channel_real r' m\<rfloor>, \<lfloor>channel_real g' m\<rfloor>, \<lfloor>channel_real b' m\<rfloor>)"
    "0 \<le> channel_real r' m" "0 \<le> channel_real g' m" "0 \<le> channel_real b' m"
    by blast
  moreover have "of_int \<lfloor>v\<rfloor> \<le> v \<and> v < of_int \<lfloor>v\<rfloor> + 1" for v :: real
    by linarith
  ultimately show "\<exists>r' g' b' m vr vg vb r g b.
      hsl_components (hue ?k) (saturation ?k) (lightness ?k) = Inr (r', g', b', m)
      \<and> channel_value r' m = Finite vr \<and> channel_value g' m = Finite vg
      \<and> channel_value b' m = Finite vb
      \<and> hsl_to_rgb (hue ?k) (saturation ?k) (lightness ?k) = Inr (r, g, b)
      \<and> 0 \<le> vr \<and> of_int r \<le> vr \<and> vr < of_int r + 1
      \<and> 0 \<le> vg \<and> of_int g \<le> vg \<and> vg < of_int g + 1
      \<and> 0 \<le> vb \<and> of_int b \<le> vb \<and> vb < of_int b + 1"
    by blast
next
  have comps: "hsl_components 49 65 55 =
     Inr (Finite (chroma 55 65), Finite (second_component (chroma 55 65) 49), Finite 0,
          Finite (offset 55 (chroma 55 65)))"
    using hsl_components_finite [of 49 65 55] by simp
  have val: "channel_value (Finite (chroma 55 65)) (Finite (offset 55 (chroma 55 65)))
       = Finite (channel_real (chroma 55 65) (offset 55 (chroma 55 65)))"
    using channel_bounds(1) [of 49 65 55 "chroma 55 65"] by simp
  have "trunc (channel_real (chroma 55 65) (offset 55 (chroma 55 65))) = 214"
    "round (channel_real (chroma 55 65) (offset 55 (chroma 55 65))) = 215"
    by (fact red_of_1)+
  with comps val hsl_49 show "\<exists>g' b' m vr.
        hsl_components 49 65 55 = Inr (Finite (chroma 55 65), g', b', m)
        \<and> channel_value (Finite (chroma 55 65)) m = Finite vr
        \<and> trunc vr = 214 \<and> round vr = 215
        \<and> hsl_to_rgb 49 65 55 = Inr (214, 187, 65)"
    by blast
qed

lemma color_of_empty: "generate_color_for_product [] = Inr (str ''#D64141'')"
proof -
  have "hsl_to_rgb 0 65 55 = Inr (214, 65, 65)"
    by (simp add: hsl_to_rgb_def hsl_components_def channel_value_def float_eval)
  then show ?thesis
    by (simp add: generate_color_for_product_def hash_of_def hue_def saturation_def
        lightness_def fmt bind_result_def)
qed

lemma generate_color_returns: "\<exists>color. generate_color_for_product str_id = Inr color"
proof -
  let ?k = "hash_of str_id"
  from hsl_of_hash [of ?k ?k ?k] obtain r g b where
    "hsl_to_rgb (hue ?k) (saturation ?k) (lightness ?k) = Inr (r, g, b)"
    by blast
  then show ?thesis
    by (simp add: generate_color_for_product_unfold bind_result_def)
qed

text \<open>
  C5: \<open>generate_color_for_product\<close> returns a colour for every string, none of the
  exceptions of the model is reachable; the empty string has the hash 0 and the colour
  \<open>#D64141\<close>.
\<close>

theorem generate_color_total:
  "(\<exists>color. generate_color_for_product str_id = Inr color)
   \<and> hash_of [] = 0
   \<and> generate_color_for_product [] = Inr (str ''#D64141'')"
  using generate_color_returns [of str_id] color_of_empty by (simp add: hash_of_def)

section \<open>When \<open>add_colors_to_csv\<close> succeeds\<close>

text \<open>
  A table whose header has \<open>ProductId\<close> and no \<open>Color\<close> is augmented: the loop
  finds an identifier in every row, the colour function returns, and the writer accepts
  every row.
\<close>

lemma color_rows_total:
  assumes "\<And>row. row \<in> set rows \<Longrightarrow> map_of (cells row) (str ''ProductId'') \<noteq> None"
  shows "\<exists>pc' rows'. color_rows pc rows = Inr (pc', rows')"
  using assms
proof (induction rows arbitrary: pc)
  case Nil
  then show ?case by simp
next
  case (Cons row rows)
  from Cons.prems [of row] obtain pid where pid: "map_of (cells row) (str ''ProductId'') = Some pid"
    by auto
  obtain color where color: "generate_color_for_product (py_str pid) = Inr color"
    using generate_color_returns by blast
  define pc1 where "pc1 = (if map_of pc pid = None then AList.update pid color pc else pc)"
  have step: "(if map_of pc pid = None
             then bind_result (generate_color_for_product (py_str pid))
                    (\<lambda>color. Inr (AList.update pid color pc))
             else Inr pc) = Inr pc1"
    by (simp add: pc1_def color bind_result_def)
  obtain c where c: "map_of pc1 pid = Some c"
    by (cases "map_of pc pid") (auto simp: pc1_def AList.update_conv')
  from Cons.IH [of pc1] Cons.prems obtain pc' rows' where "color_rows pc1 rows = Inr (pc', rows')"
    by auto
  then show ?case by (simp add: pid step c bind_result_def)
qed

lemma add_colors_succeeds:
  assumes stored: "fs input_file = Some (fieldnames # records)"
    and tbl: "is_table (fieldnames # records)"
    and nocolor: "str ''Color'' \<notin> set fieldnames"
    and pid: "str ''ProductId'' \<in> set fieldnames"
  shows "\<exists>k fs'. add_colors_to_csv input_file output_file fs = (Inr (Added (length records) k), fs')"
proof -
  let ?F = "read_record fieldnames"
  let ?lines = "map read_record records"
  let ?rows = "map (DictReader_row ?F) ?lines"
  note reader = DictReader_table(1) [OF tbl] and len = DictReader_table(2) [OF tbl]
  have nocolor': "str ''Color'' \<notin> set ?F" using nocolor by (simp add: Color_read)
  have pid': "str ''ProductId'' \<in> set ?F" using pid by (simp add: ProductId_read)
  have "map_of (cells row) (str ''ProductId'') \<noteq> None" if "row \<in> set ?rows" for row
  proof -
    from that obtain line where line: "line \<in> set ?lines" and row: "row = DictReader_row ?F line"
      by auto
    have "str ''ProductId'' \<in> dom (Map.empty(?F [\<mapsto>] map Some line))"
      using pid' len [OF line] by (simp add: dom_map_upds)
    then show ?thesis
      unfolding row DictReader_row_full(2) [OF len [OF line]] by (simp add: dom_def)
  qed
  from color_rows_total [OF this] obtain pc rows' where
    loop: "color_rows [] ?rows = Inr (pc, rows')" by blast
  note written = table_rows_written [OF len nocolor' loop]
  from written(1) obtain lines' where
    "writerows (?F @ [str ''Color'']) rows' [?F @ [str ''Color'']]
       = (None, (?F @ [str ''Color'']) # lines')"
    by blast
  with stored reader nocolor' loop written(2,3) show ?thesis
    by (simp add: add_colors_to_csv_def Let_def)
qed

text \<open>
  A second run on the file that a successful run has written in place finds the field
  \<open>Color\<close> and changes nothing.
\<close>

lemma add_colors_twice:
  assumes "fs input_file = Some (fieldnames # records)"
    and "is_table (fieldnames # records)"
    and "add_colors_to_csv input_file None fs = (Inr (Added n k), fs')"
  shows "add_colors_to_csv input_file None fs' = (Inr ColorExists, fs')"
proof -
  from add_colors_result [OF assms] obtain lines' where
    "fs' input_file = Some ((read_record fieldnames @ [str ''Color'']) # lines')"
    by auto
  then show ?thesis
    by (simp add: add_colors_to_csv_def DictReader_def Let_def Color_read)
qed

end
